theory Spec2Isabelle
  imports Main
begin

section \<open>JavaScript values, as far as server/index.js observes them\<close>

text \<open>
  A string is a list of code units; \<^typ>\<open>char\<close> has the 256 code units of Latin-1, on
  which \<open>length\<close>, \<open>substring\<close>, \<open>trim\<close> and \<open>toLowerCase\<close> are modelled as the
  language defines them.

  A finite number is kept as the decimal that \<open>Number::toString\<close> prints for it (the
  shortest one that reads back as the same double): \<open>Num neg m n\<close> is the value
  \<open>0.d\<^sub>1\<dots>d\<^sub>k \<times> 10\<^sup>n\<close>, negated when \<open>neg\<close>, where \<open>d\<^sub>1\<dots>d\<^sub>k\<close> are the decimal digits of
  \<open>m\<close> without its trailing zeros; \<open>m = 0\<close> is zero. So \<open>Num False 925 2\<close> is 92.5 and
  \<open>Num False 1 22\<close> is 1e21. \<open>Infinity neg\<close> is what \<open>JSON.parse\<close> returns for a
  literal beyond the double range, such as \<open>1e999\<close>.
\<close>

datatype jsnum = Num bool nat int | Infinity bool

datatype jsval =
    JUndefined
  | JNull
  | JBool bool
  | JNum jsnum
  | JStr string
  | JArr "jsval list"
  | JObj "(string \<times> jsval) list"

text \<open>
  A thrown error, with its message. Where the engine itself throws (a TypeError), the
  message is written as V8 words it.
\<close>

datatype js_error = Error (message: string)

text \<open>An integer as a number value.\<close>

definition digit_char :: "nat \<Rightarrow> char" where
  "digit_char d = ''0123456789'' ! d"

fun digits :: "nat \<Rightarrow> string" where
  "digits n = (if n < 10 then [digit_char n] else digits (n div 10) @ [digit_char (n mod 10)])"

declare digits.simps [simp del]

definition num_of_int :: "int \<Rightarrow> jsnum" where
  "num_of_int i = Num (i < 0) (nat \<bar>i\<bar>) (int (length (digits (nat \<bar>i\<bar>))))"

text \<open>
  Two readings of the number \<open>0.d\<^sub>1\<dots>d\<^sub>k \<times> 10\<^sup>n\<close> with the digits of \<open>m\<close>, in which the
  claims about numbers are stated: its integer part (the digits before the decimal
  point), and its leading digit \<open>d\<^sub>1\<close>.
\<close>

definition integer_part :: "nat \<Rightarrow> int \<Rightarrow> nat" where
  "integer_part m n =
     (let k = int (length (digits m))
      in if k \<le> n then m * 10 ^ nat (n - k) else m div 10 ^ nat (k - n))"

definition leading_digit :: "nat \<Rightarrow> nat" where
  "leading_digit m = m div 10 ^ (length (digits m) - 1)"

text \<open>Truthiness and the operator \<open>||\<close>.\<close>

fun truthy :: "jsval \<Rightarrow> bool" where
  "truthy JUndefined = False"
| "truthy JNull = False"
| "truthy (JBool b) = b"
| "truthy (JNum (Num neg m n)) = (m \<noteq> 0)"
| "truthy (JNum (Infinity neg)) = True"
| "truthy (JStr s) = (s \<noteq> [])"
| "truthy (JArr xs) = True"
| "truthy (JObj kvs) = True"

definition js_or :: "jsval \<Rightarrow> jsval \<Rightarrow> jsval" where
  "js_or a b = (if truthy a then a else b)"

text \<open>
  White space and line terminators below U+0100, which \<open>trim\<close> and \<open>parseInt\<close> strip:
  TAB, LF, VT, FF, CR, SP and NBSP.
\<close>

definition is_ws :: "char \<Rightarrow> bool" where
  "is_ws c \<longleftrightarrow>
     c \<in> {CHR 0x09, CHR 0x0A, CHR 0x0B, CHR 0x0C, CHR 0x0D, CHR 0x20, CHR 0xA0}"

definition js_trim :: "string \<Rightarrow> string" where
  "js_trim s = rev (dropWhile is_ws (rev (dropWhile is_ws s)))"

text \<open>
  \<open>toLowerCase\<close> on Latin-1: A to Z, and U+00C0 to U+00DE without the multiplication
  sign U+00D7, move up by 32; every other code unit stays.
\<close>

definition upper_chars :: string where
  "upper_chars = ''ABCDEFGHIJKLMNOPQRSTUVWXYZ'' @
     [CHR 0xC0, CHR 0xC1, CHR 0xC2, CHR 0xC3, CHR 0xC4, CHR 0xC5, CHR 0xC6, CHR 0xC7,
      CHR 0xC8, CHR 0xC9, CHR 0xCA, CHR 0xCB, CHR 0xCC, CHR 0xCD, CHR 0xCE, CHR 0xCF,
      CHR 0xD0, CHR 0xD1, CHR 0xD2, CHR 0xD3, CHR 0xD4, CHR 0xD5, CHR 0xD6,
      CHR 0xD8, CHR 0xD9, CHR 0xDA, CHR 0xDB, CHR 0xDC, CHR 0xDD, CHR 0xDE]"

definition lower_chars :: string where
  "lower_chars = ''abcdefghijklmnopqrstuvwxyz'' @
     [CHR 0xE0, CHR 0xE1, CHR 0xE2, CHR 0xE3, CHR 0xE4, CHR 0xE5, CHR 0xE6, CHR 0xE7,
      CHR 0xE8, CHR 0xE9, CHR 0xEA, CHR 0xEB, CHR 0xEC, CHR 0xED, CHR 0xEE, CHR 0xEF,
      CHR 0xF0, CHR 0xF1, CHR 0xF2, CHR 0xF3, CHR 0xF4, CHR 0xF5, CHR 0xF6,
      CHR 0xF8, CHR 0xF9, CHR 0xFA, CHR 0xFB, CHR 0xFC, CHR 0xFD, CHR 0xFE]"

definition lower_char :: "char \<Rightarrow> char" where
  "lower_char c = (case map_of (zip upper_chars lower_chars) c of Some d \<Rightarrow> d | None \<Rightarrow> c)"

definition toLowerCase :: "string \<Rightarrow> string" where
  "toLowerCase s = map lower_char s"

subsection \<open>Conversion to string\<close>

text \<open>
  \<open>Number::toString\<close> in radix 10 (ECMA-262): with \<open>k\<close> digits and the decimal point
  after the \<open>n\<close>-th, positional notation for \<open>-6 < n \<le> 21\<close> and exponent notation
  otherwise.
\<close>

fun strip_zeros :: "nat \<Rightarrow> nat" where
  "strip_zeros m = (if m = 0 \<or> m mod 10 \<noteq> 0 then m else strip_zeros (m div 10))"

declare strip_zeros.simps [simp del]

definition number_to_string :: "jsnum \<Rightarrow> string" where
  "number_to_string x =
     (case x of
        Infinity neg \<Rightarrow> (if neg then ''-Infinity'' else ''Infinity'')
      | Num neg m n \<Rightarrow>
          if m = 0 then ''0''
          else (if neg then ''-'' else []) @
            (let ds = digits (strip_zeros m); k = int (length ds)
             in if k \<le> n \<and> n \<le> 21 then ds @ replicate (nat (n - k)) (CHR ''0'')
                else if 0 < n \<and> n \<le> 21 then take (nat n) ds @ ''.'' @ drop (nat n) ds
                else if - 6 < n \<and> n \<le> 0 then ''0.'' @ replicate (nat (- n)) (CHR ''0'') @ ds
                else (let es = (if n - 1 < 0 then ''-'' else ''+'') @ digits (nat \<bar>n - 1\<bar>)
                      in if k = 1 then ds @ ''e'' @ es
                         else take 1 ds @ ''.'' @ drop 1 ds @ ''e'' @ es)))"

fun join_comma :: "string list \<Rightarrow> string" where
  "join_comma [] = []"
| "join_comma [x] = x"
| "join_comma (x # y # ys) = x @ '','' @ join_comma (y # ys)"

text \<open>
  \<open>ToString\<close> of a value that came out of \<open>JSON.parse\<close>. An array joins its elements
  with commas, null printing as nothing. An object prints as \<open>[object Object]\<close>, unless
  it has a key \<open>toString\<close> of its own: a JSON value is never callable, the conversion
  then finds no primitive and throws a TypeError, which is \<open>None\<close> here.
\<close>

fun to_string :: "jsval \<Rightarrow> string option" where
  "to_string JUndefined = Some ''undefined''"
| "to_string JNull = Some ''null''"
| "to_string (JBool b) = Some (if b then ''true'' else ''false'')"
| "to_string (JNum x) = Some (number_to_string x)"
| "to_string (JStr s) = Some s"
| "to_string (JArr xs) =
     map_option join_comma
       (those (map (\<lambda>x. if x = JUndefined \<or> x = JNull then Some [] else to_string x) xs))"
| "to_string (JObj kvs) =
     (if map_of kvs ''toString'' = None then Some ''[object Object]'' else None)"

subsection \<open>parseInt\<close>

text \<open>The value of a digit: 0 to 9, then a to z or A to Z for 10 to 35.\<close>

definition digit_value :: "char \<Rightarrow> nat option" where
  "digit_value c =
     (let n = (of_char c :: nat)
      in if 48 \<le> n \<and> n \<le> 57 then Some (n - 48)
         else if 97 \<le> n \<and> n \<le> 122 then Some (n - 87)
         else if 65 \<le> n \<and> n \<le> 90 then Some (n - 55)
         else None)"

definition is_radix_digit :: "nat \<Rightarrow> char \<Rightarrow> bool" where
  "is_radix_digit r c = (case digit_value c of Some v \<Rightarrow> v < r | None \<Rightarrow> False)"

definition to_number :: "nat \<Rightarrow> string \<Rightarrow> nat" where
  "to_number r z = foldl (\<lambda>acc c. acc * r + (case digit_value c of Some v \<Rightarrow> v | None \<Rightarrow> 0)) 0 z"

text \<open>
  \<open>parseInt(string)\<close> with no radix argument: leading white space, a sign, the prefix
  \<open>0x\<close> or \<open>0X\<close> (then radix 16), and the longest run of digits; \<open>None\<close> is NaN. The
  result is the mathematical integer. The program only uses it through
  \<open>Math.max(0, Math.min(100, _ || 0))\<close>, where the rounding of a long digit string to a
  double, and the sign of a zero, make no difference: rounding is monotone and exact on
  the integers up to 100.
\<close>

definition parseInt_string :: "string \<Rightarrow> int option" where
  "parseInt_string inp =
     (let s = dropWhile is_ws inp;
          neg = (s \<noteq> [] \<and> hd s = CHR ''-'');
          s1 = (if s \<noteq> [] \<and> (hd s = CHR ''+'' \<or> hd s = CHR ''-'') then tl s else s);
          hex = (take 2 s1 = ''0x'' \<or> take 2 s1 = ''0X'');
          r = (if hex then 16 else 10);
          s2 = (if hex then drop 2 s1 else s1);
          z = takeWhile (is_radix_digit r) s2
      in if z = [] then None
         else Some (if neg then - int (to_number r z) else int (to_number r z)))"

definition parseInt :: "jsval \<Rightarrow> js_error + int option" where
  "parseInt v =
     (case to_string v of
        None \<Rightarrow> Inl (Error ''Cannot convert object to primitive value'')
      | Some s \<Rightarrow> Inr (parseInt_string s))"

text \<open>\<open>x || 0\<close> on a number: NaN and zero give 0.\<close>

definition or_zero :: "int option \<Rightarrow> int" where
  "or_zero p = (case p of None \<Rightarrow> 0 | Some i \<Rightarrow> i)"

text \<open>
  Reading one of the properties \<open>status\<close>, \<open>evidence\<close>, \<open>reasoning\<close>, \<open>confidence\<close>:
  a TypeError on null and undefined, the entry of an object, and undefined on every
  other value, none of whose prototypes has a property of these names.
\<close>

definition lookup_prop :: "(string \<times> jsval) list \<Rightarrow> string \<Rightarrow> jsval" where
  "lookup_prop kvs k = (case map_of kvs k of Some x \<Rightarrow> x | None \<Rightarrow> JUndefined)"

definition get_prop :: "jsval \<Rightarrow> string \<Rightarrow> js_error + jsval" where
  "get_prop v k =
     (case v of
        JUndefined \<Rightarrow>
          Inl (Error (''Cannot read properties of undefined (reading '' @
                      [CHR 0x27] @ k @ [CHR 0x27] @ '')''))
      | JNull \<Rightarrow>
          Inl (Error (''Cannot read properties of null (reading '' @
                      [CHR 0x27] @ k @ [CHR 0x27] @ '')''))
      | JObj kvs \<Rightarrow> Inr (lookup_prop kvs k)
      | _ \<Rightarrow> Inr JUndefined)"

section \<open>The single-rule checker\<close>

text \<open>
  What lines 138 to 156 of \<open>checkRuleWithLLM\<close> get from outside for one prompt: the
  request to the completion service (or the reading of the content of its reply) throws,
  or \<open>JSON.parse\<close> throws on that content, or it returns a value.
\<close>

datatype llm_outcome = CallThrows string | ParseThrows string | Parsed jsval

record rule_result =
  rule :: jsval
  status :: string
  evidence :: jsval
  reasoning :: jsval
  confidence :: int

text \<open>What the program does to the outside, in program order.\<close>

datatype event =
    ReadFile string
  | ExtractText
  | Unlink string
  | CallLlm string
  | Send nat

definition prompt_head :: string where
  "prompt_head =
     ''You are analyzing a document to check if it follows a specific rule.\<newline>\<newline>RULE TO CHECK: \"''"

definition prompt_mid :: string where
  "prompt_mid = ''\"\<newline>\<newline>DOCUMENT TEXT:\<newline>''"

definition prompt_tail :: string where
  "prompt_tail =
     ''\<newline>\<newline>Please analyze the document and determine if it PASSES or FAILS the rule. Provide your response in the following JSON format:\<newline>'' @
     ''{\<newline>'' @
     ''  \"status\": \"pass\" or \"fail\",\<newline>'' @
     ''  \"evidence\": \"One specific sentence or phrase from the document that supports your decision (or 'Not found' if failing)\",\<newline>'' @
     ''  \"reasoning\": \"Brief explanation (1-2 sentences) of why it passes or fails\",\<newline>'' @
     ''  \"confidence\": A number between 0-100 representing your confidence in this assessment\<newline>'' @
     ''}\<newline>\<newline>'' @
     ''IMPORTANT: \<newline>'' @
     ''- Return ONLY valid JSON, no additional text\<newline>'' @
     ''- Evidence should be an exact quote from the document if possible\<newline>'' @
     ''- Confidence should reflect how certain you are (higher for clear cases, lower for ambiguous ones)\<newline>'' @
     ''- If the rule is not met, status must be \"fail\"''"

definition build_prompt :: "string \<Rightarrow> string \<Rightarrow> string" where
  "build_prompt pdfText r =
     prompt_head @ r @ prompt_mid @
     take 12000 pdfText @ (if 12000 < length pdfText then ''...'' else []) @
     prompt_tail"

text \<open>
  \<open>(result.status || 'fail').toLowerCase()\<close>: only a string has the method; the call
  on any other truthy value throws a TypeError.
\<close>

definition call_toLowerCase :: "jsval \<Rightarrow> js_error + string" where
  "call_toLowerCase v =
     (case v of
        JStr s \<Rightarrow> Inr (toLowerCase s)
      | _ \<Rightarrow> Inl (Error ''(result.status || \"fail\").toLowerCase is not a function''))"

text \<open>Line 164: \<open>Math.max(0, Math.min(100, parseInt(result.confidence) || 0))\<close>.\<close>

definition confidence_of :: "jsval \<Rightarrow> js_error + int" where
  "confidence_of co =
     (case parseInt co of
        Inl e \<Rightarrow> Inl e
      | Inr p \<Rightarrow> Inr (max 0 (min 100 (or_zero p))))"

text \<open>The object literal of lines 159 to 165, its fields evaluated in order.\<close>

definition format_response :: "string \<Rightarrow> jsval \<Rightarrow> js_error + rule_result" where
  "format_response r result =
     (case get_prop result ''status'' of
        Inl e \<Rightarrow> Inl e
      | Inr st \<Rightarrow>
     (case call_toLowerCase (js_or st (JStr ''fail'')) of
        Inl e \<Rightarrow> Inl e
      | Inr status' \<Rightarrow>
     (case get_prop result ''evidence'' of
        Inl e \<Rightarrow> Inl e
      | Inr ev \<Rightarrow>
     (case get_prop result ''reasoning'' of
        Inl e \<Rightarrow> Inl e
      | Inr re \<Rightarrow>
     (case get_prop result ''confidence'' of
        Inl e \<Rightarrow> Inl e
      | Inr co \<Rightarrow>
     (case confidence_of co of
        Inl e \<Rightarrow> Inl e
      | Inr c \<Rightarrow>
          Inr \<lparr>rule = JStr r,
               status = status',
               evidence = js_or ev (JStr ''No evidence found''),
               reasoning = js_or re (JStr ''Unable to determine''),
               confidence = c\<rparr>))))))"

text \<open>The \<open>try\<close> block: the prompt, the call, the parse and the formatting.\<close>

definition try_check :: "(string \<Rightarrow> llm_outcome) \<Rightarrow> string \<Rightarrow> string \<Rightarrow> js_error + rule_result" where
  "try_check llm pdfText r =
     (case llm (build_prompt pdfText r) of
        CallThrows m \<Rightarrow> Inl (Error m)
      | ParseThrows m \<Rightarrow> Inl (Error m)
      | Parsed result \<Rightarrow> format_response r result)"

text \<open>
  \<open>checkRuleWithLLM\<close>: the \<open>try\<close> block with its \<open>catch\<close>. It sends one request to the
  service, whatever comes back.
\<close>

definition checkRuleWithLLM ::
  "(string \<Rightarrow> llm_outcome) \<Rightarrow> string \<Rightarrow> string \<Rightarrow> event list \<times> rule_result" where
  "checkRuleWithLLM llm pdfText r =
     ([CallLlm (build_prompt pdfText r)],
      (case try_check llm pdfText r of
         Inr r \<Rightarrow> r
       | Inl e \<Rightarrow>
           \<lparr>rule = JStr r,
            status = ''fail'',
            evidence = JStr ''Error processing rule'',
            reasoning = JStr (''Failed to analyze: '' @ message e),
            confidence = 0\<rparr>))"

section \<open>The request handler of POST /api/check-pdf\<close>

text \<open>
  The upload as the middleware leaves it in \<open>req.file\<close>; the handler reads \<open>path\<close> only.
\<close>

record upload =
  path :: string
  mimetype :: string

text \<open>
  The field \<open>req.body.rules\<close> after lines 53 to 61: \<open>JSON.parse\<close> threw on a string field, or
  the value it returned; a field that is no string is taken as it is, an absent one being
  undefined.
\<close>

datatype rules_field = Unparsable | Value jsval

record request =
  req_file :: "upload option"
  body_rules :: rules_field

text \<open>
  The collaborators: the text extractor, from the bytes of the file to its text unless
  it throws, and the completion service, asked by the rule at each position.
\<close>

record env =
  pdfParse :: "string \<Rightarrow> js_error + string"
  llm :: "nat \<Rightarrow> string \<Rightarrow> llm_outcome"

datatype response = Results "rule_result list" | Failure nat string "string option"

fun status_code :: "response \<Rightarrow> nat" where
  "status_code (Results rs) = 200"
| "status_code (Failure c e m) = c"

fun results_of :: "response \<Rightarrow> rule_result list" where
  "results_of (Results rs) = rs"
| "results_of (Failure c e m) = []"

text \<open>The files on disk, by path, and what has been done so far.\<close>

record state =
  files :: "string \<Rightarrow> string option"
  events :: "event list"

definition emit :: "event list \<Rightarrow> state \<Rightarrow> state" where
  "emit es st = st\<lparr>events := events st @ es\<rparr>"

definition unlinkSync :: "string \<Rightarrow> state \<Rightarrow> js_error + state" where
  "unlinkSync p st =
     (if files st p = None then Inl (Error ''ENOENT: no such file or directory, unlink'')
      else Inr (emit [Unlink p] (st\<lparr>files := (files st)(p := None)\<rparr>)))"

definition readFileSync :: "string \<Rightarrow> state \<Rightarrow> js_error + string \<times> state" where
  "readFileSync p st =
     (case files st p of
        None \<Rightarrow> Inl (Error ''ENOENT: no such file or directory, open'')
      | Some bytes \<Rightarrow> Inr (bytes, emit [ReadFile p] st))"

definition send :: "response \<Rightarrow> state \<Rightarrow> (js_error + response) \<times> state" where
  "send resp st = (Inr resp, emit [Send (status_code resp)] st)"

text \<open>The result of lines 85 to 91 for a rule that is skipped.\<close>

definition empty_rule_result :: "jsval \<Rightarrow> rule_result" where
  "empty_rule_result r =
     \<lparr>rule = js_or r (JStr ''Empty rule''),
      status = ''fail'',
      evidence = JStr ''No rule provided'',
      reasoning = JStr ''Rule is empty or invalid'',
      confidence = 0\<rparr>"

text \<open>
  The callback of \<open>rules.map\<close>, lines 83 to 95, on one element: a falsy element and a
  string that trims to nothing are answered at once; \<open>rule.trim()\<close> on any other value
  that is no string throws a TypeError, which rejects the promise of this element.
\<close>

definition check_rule ::
  "(string \<Rightarrow> llm_outcome) \<Rightarrow> string \<Rightarrow> jsval \<Rightarrow> event list \<times> (js_error + rule_result)" where
  "check_rule ask pdfText r =
     (if \<not> truthy r then ([], Inr (empty_rule_result r))
      else case r of
             JStr s \<Rightarrow>
               if length (js_trim s) = 0 then ([], Inr (empty_rule_result r))
               else (case checkRuleWithLLM ask pdfText s of (es, res) \<Rightarrow> (es, Inr res))
           | _ \<Rightarrow> ([], Inl (Error ''rule.trim is not a function'')))"

text \<open>\<open>rules.map\<close>: the callback runs on every element, in order, from position \<open>i\<close>.\<close>

fun check_rules ::
  "(nat \<Rightarrow> string \<Rightarrow> llm_outcome) \<Rightarrow> string \<Rightarrow> nat \<Rightarrow> jsval list
     \<Rightarrow> (event list \<times> (js_error + rule_result)) list" where
  "check_rules ask pdfText i [] = []"
| "check_rules ask pdfText i (r # rs) =
     check_rule (ask i) pdfText r # check_rules ask pdfText (Suc i) rs"

text \<open>
  \<open>Promise.all\<close>: the values by position when every promise is fulfilled, the first
  rejection otherwise. The rejections here happen while \<open>map\<close> runs, so the first one
  in time is the first one in the array.
\<close>

fun promise_all :: "(js_error + 'a) list \<Rightarrow> js_error + 'a list" where
  "promise_all [] = Inr []"
| "promise_all (Inl e # ps) = Inl e"
| "promise_all (Inr x # ps) = (case promise_all ps of Inl e \<Rightarrow> Inl e | Inr xs \<Rightarrow> Inr (x # xs))"

text \<open>Lines 63 to 98: from the check of the rules to the results.\<close>

definition process :: "env \<Rightarrow> upload \<Rightarrow> jsval \<Rightarrow> state \<Rightarrow> (js_error + response) \<times> state" where
  "process en f rs st =
     (case rs of
        JArr (r # rest) \<Rightarrow>
          (case readFileSync (path f) st of
             Inl e \<Rightarrow> (Inl e, st)
           | Inr (pdfBuffer, st1) \<Rightarrow>
          (case pdfParse en pdfBuffer of
             Inl e \<Rightarrow> (Inl e, emit [ExtractText] st1)
           | Inr pdfText \<Rightarrow>
          (case unlinkSync (path f) (emit [ExtractText] st1) of
             Inl e \<Rightarrow> (Inl e, emit [ExtractText] st1)
           | Inr st2 \<Rightarrow>
               if pdfText = [] \<or> length (js_trim pdfText) = 0
               then send (Failure 400 ''Could not extract text from PDF'' None) st2
               else (let outs = check_rules (llm en) pdfText 0 (r # rest);
                         st3 = emit (concat (map fst outs)) st2
                     in case promise_all (map snd outs) of
                          Inl e \<Rightarrow> (Inl e, st3)
                        | Inr results \<Rightarrow> send (Results results) st3))))
      | _ \<Rightarrow>
          (case unlinkSync (path f) st of
             Inl e \<Rightarrow> (Inl e, st)
           | Inr st1 \<Rightarrow> send (Failure 400 ''At least one rule is required'' None) st1))"

text \<open>The \<open>try\<close> block, lines 48 to 98.\<close>

definition try_handle :: "env \<Rightarrow> request \<Rightarrow> state \<Rightarrow> (js_error + response) \<times> state" where
  "try_handle en req st =
     (case req_file req of
        None \<Rightarrow> send (Failure 400 ''No PDF file uploaded'' None) st
      | Some f \<Rightarrow>
          (case body_rules req of
             Unparsable \<Rightarrow>
               (case unlinkSync (path f) st of
                  Inl e \<Rightarrow> (Inl e, st)
                | Inr st1 \<Rightarrow> send (Failure 400 ''Invalid rules format'' None) st1)
           | Value rs \<Rightarrow> process en f rs st))"

text \<open>
  The handler: the \<open>try\<close> block and its \<open>catch\<close>, lines 99 to 111. It returns the
  response sent and the state it leaves.
\<close>

definition handler :: "env \<Rightarrow> request \<Rightarrow> state \<Rightarrow> response \<times> state" where
  "handler en req st =
     (case try_handle en req st of
        (Inr resp, st1) \<Rightarrow> (resp, st1)
      | (Inl e, st1) \<Rightarrow>
          (let st2 = (case req_file req of
                        None \<Rightarrow> st1
                      | Some f \<Rightarrow>
                          if files st1 (path f) \<noteq> None
                          then (case unlinkSync (path f) st1 of Inr s \<Rightarrow> s | Inl e' \<Rightarrow> st1)
                          else st1);
               resp = Failure 500 ''Failed to process PDF'' (Some (message e))
           in (resp, emit [Send (status_code resp)] st2)))"

section \<open>Example inputs\<close>

text \<open>A service that fails on the first rule and answers the others.\<close>

definition flaky_llm :: "nat \<Rightarrow> string \<Rightarrow> llm_outcome" where
  "flaky_llm i p =
     (if i = 0 then CallThrows ''Connection error.''
      else Parsed (JObj [(''status'', JStr ''PASS''), (''evidence'', JStr ''Summary: ...''),
                         (''reasoning'', JStr ''It has one.''),
                         (''confidence'', JNum (num_of_int 92))]))"

definition two_rules :: "jsval list" where
  "two_rules = [JStr ''Document mentions a date.'', JStr ''Document has a summary.'']"

text \<open>Replies of the service: a status outside the two values, a number of twenty-two
  digits, an upper-case status with a confidence above 100, and a null status.\<close>

definition unknown_llm :: "string \<Rightarrow> llm_outcome" where
  "unknown_llm p = Parsed (JObj [(''status'', JStr ''unknown''), (''confidence'', JNum (num_of_int 80))])"

definition huge_llm :: "string \<Rightarrow> llm_outcome" where
  "huge_llm p = Parsed (JObj [(''status'', JStr ''pass''), (''confidence'', JNum (Num False 1 22))])"

definition shouting_llm :: "string \<Rightarrow> llm_outcome" where
  "shouting_llm p = Parsed (JObj [(''status'', JStr ''PASS''), (''confidence'', JNum (num_of_int 150))])"

definition null_status_llm :: "string \<Rightarrow> llm_outcome" where
  "null_status_llm p = Parsed (JObj [(''status'', JNull), (''confidence'', JNum (num_of_int 150))])"

text \<open>
  A request with a PDF on disk from which \<open>Published 2024\<close> is extracted, and one with a
  plain text file, on which the extractor throws.
\<close>

definition sample_upload :: upload where
  "sample_upload = \<lparr>path = ''uploads/3f2a'', mimetype = ''application/pdf''\<rparr>"

definition sample_pdfParse :: "string \<Rightarrow> js_error + string" where
  "sample_pdfParse bytes =
     (if bytes = ''%PDF-1.4 ...'' then Inr ''Published 2024''
      else Inl (Error ''Invalid PDF structure''))"

definition sample_env :: env where
  "sample_env = \<lparr>pdfParse = sample_pdfParse, llm = flaky_llm\<rparr>"

definition sample_state :: state where
  "sample_state = \<lparr>files = Map.empty(''uploads/3f2a'' \<mapsto> ''%PDF-1.4 ...''), events = []\<rparr>"

definition sample_request :: "jsval list \<Rightarrow> request" where
  "sample_request rs = \<lparr>req_file = Some sample_upload, body_rules = Value (JArr rs)\<rparr>"

definition date_rules :: "jsval list" where
  "date_rules = [JStr ''Document mentions a date.'', JStr [], JStr ''Document has a summary.'']"

definition text_upload :: upload where
  "text_upload = \<lparr>path = ''uploads/9c1b'', mimetype = ''text/plain''\<rparr>"

definition text_state :: state where
  "text_state = \<lparr>files = Map.empty(''uploads/9c1b'' \<mapsto> ''hello''), events = []\<rparr>"

definition text_request :: request where
  "text_request = \<lparr>req_file = Some text_upload, body_rules = Value (JArr two_rules)\<rparr>"

section \<open>Evaluation and basic facts\<close>

lemmas eval_digits = digits.simps digit_char_def strip_zeros.simps

lemmas eval_number = number_to_string_def num_of_int_def eval_digits

lemmas eval_parse = parseInt_string_def is_ws_def is_radix_digit_def digit_value_def to_number_def

lemmas eval_parseInt = parseInt_def eval_parse or_zero_def confidence_of_def

lemmas eval_check = checkRuleWithLLM_def try_check_def format_response_def get_prop_def
  lookup_prop_def call_toLowerCase_def toLowerCase_def lower_char_def upper_chars_def lower_chars_def js_or_def

lemmas eval_rule = check_rule_def empty_rule_result_def js_trim_def

lemma js_trim_blank:
  assumes "\<forall>c\<in>set s. is_ws c"
  shows "js_trim s = []"
proof -
  from assms have blank: "dropWhile is_ws s = []" by simp
  show ?thesis unfolding js_trim_def blank by simp
qed

lemma check_rules_nth:
  "j < length rs \<Longrightarrow> check_rules ask pdfText i rs ! j = check_rule (ask (i + j)) pdfText (rs ! j)"
proof (induction rs arbitrary: i j)
  case Nil
  then show ?case by simp
next
  case (Cons r rs)
  show ?case
  proof (cases j)
    case 0
    then show ?thesis by simp
  next
    case (Suc k)
    with Cons.prems have "k < length rs" by simp
    from Cons.IH [OF this, of "Suc i"] Suc show ?thesis by simp
  qed
qed

lemma check_rules_length: "length (check_rules ask pdfText i rs) = length rs"
  by (induction rs arbitrary: i) simp_all

subsection \<open>Decimal digits and parseInt\<close>

lemma digit_value_digit_char: "d < 10 \<Longrightarrow> digit_value (digit_char d) = Some d"
proof -
  assume "d < 10"
  then have "d \<in> {0, 1, 2, 3, 4, 5, 6, 7, 8, 9}" by auto
  then show ?thesis by (auto simp: digit_value_def digit_char_def)
qed

lemma digit_char_not_ws: "d < 10 \<Longrightarrow> \<not> is_ws (digit_char d)"
proof -
  assume "d < 10"
  then have "d \<in> {0, 1, 2, 3, 4, 5, 6, 7, 8, 9}" by auto
  then show ?thesis by (auto simp: is_ws_def digit_char_def)
qed

lemma digit_char_not_sign:
  "d < 10 \<Longrightarrow> digit_char d \<noteq> CHR ''-'' \<and> digit_char d \<noteq> CHR ''+''"
proof -
  assume "d < 10"
  then have "d \<in> {0, 1, 2, 3, 4, 5, 6, 7, 8, 9}" by auto
  then show ?thesis by (auto simp: digit_char_def)
qed

lemma digit_char_zero: "d < 10 \<Longrightarrow> digit_char d = CHR ''0'' \<longleftrightarrow> d = 0"
proof -
  assume "d < 10"
  then have "d \<in> {0, 1, 2, 3, 4, 5, 6, 7, 8, 9}" by auto
  then show ?thesis by (auto simp: digit_char_def)
qed


lemma digits_decimal: "\<forall>c\<in>set (digits m). \<exists>d<10. c = digit_char d"
proof (induction m rule: digits.induct)
  case (1 n)
  show ?case
  proof (cases "n < 10")
    case True
    then show ?thesis by (subst digits.simps) auto
  next
    case False
    have "\<exists>d<10. digit_char (n mod 10) = digit_char d"
      by (rule exI [of _ "n mod 10"]) simp
    with False 1 show ?thesis by (subst digits.simps) auto
  qed
qed

lemma digits_nonempty: "digits m \<noteq> []"
  by (subst digits.simps) simp

lemma hd_digits: "0 < m \<Longrightarrow> \<exists>d. 0 < d \<and> d < 10 \<and> hd (digits m) = digit_char d"
proof (induction m rule: digits.induct)
  case (1 n)
  show ?case
  proof (cases "n < 10")
    case True
    with 1(2) show ?thesis by (subst digits.simps) auto
  next
    case False
    then have "0 < n div 10" by simp
    from 1(1) [OF False this] False show ?thesis
      by (subst digits.simps) (simp add: digits_nonempty)
  qed
qed

lemma strip_zeros_pos: "0 < m \<Longrightarrow> 0 < strip_zeros m"
proof (induction m rule: strip_zeros.induct)
  case (1 m)
  show ?case
  proof (cases "m mod 10 \<noteq> 0")
    case True
    with 1(2) show ?thesis by (subst strip_zeros.simps) simp
  next
    case False
    with 1(2) have "0 < m div 10" by presburger
    with 1 False show ?thesis by (subst strip_zeros.simps) simp
  qed
qed

lemma foldl_digits_lower:
  "a * r ^ length z \<le> foldl (\<lambda>acc c. acc * r + (case digit_value c of Some v \<Rightarrow> v | None \<Rightarrow> 0)) a z"
proof (induction z arbitrary: a)
  case Nil
  then show ?case by simp
next
  case (Cons c z)
  let ?v = "case digit_value c of Some v \<Rightarrow> v | None \<Rightarrow> 0"
  have "a * r ^ length (c # z) = (a * r) * r ^ length z" by simp
  also have "\<dots> \<le> (a * r + ?v) * r ^ length z" by (simp add: mult_le_mono1)
  also have "\<dots> \<le> foldl (\<lambda>acc c. acc * r + (case digit_value c of Some v \<Rightarrow> v | None \<Rightarrow> 0)) (a * r + ?v) z"
    by (rule Cons.IH)
  finally show ?case by simp
qed

lemma to_number_lower:
  assumes "0 < d" "d < 10"
  shows "10 ^ length z \<le> to_number 10 (digit_char d # z)"
proof -
  have "10 ^ length z \<le> d * 10 ^ length z" using assms by simp
  also have "\<dots> \<le> to_number 10 (digit_char d # z)"
    using foldl_digits_lower [of d 10 z] assms
    by (simp add: to_number_def digit_value_digit_char)
  finally show ?thesis .
qed

lemma takeWhile_run:
  assumes "\<forall>c\<in>set xs. P c" and "rest = [] \<or> \<not> P (hd rest)"
  shows "takeWhile P (xs @ rest) = xs"
proof (cases rest)
  case Nil
  with assms(1) show ?thesis by simp
next
  case (Cons x ys)
  with assms(2) have "\<not> P x" by simp
  with assms(1) Cons show ?thesis by (simp add: takeWhile_append2)
qed

text \<open>Reading a string that starts with a run of decimal digits, the first not zero.\<close>

lemma parseInt_string_run:
  assumes d: "0 < d" "d < 10"
      and z: "\<forall>c\<in>set z. \<exists>e<10. c = digit_char e"
      and rest: "rest = [] \<or> \<not> is_radix_digit 10 (hd rest)"
  shows "parseInt_string (digit_char d # z @ rest) = Some (int (to_number 10 (digit_char d # z)))"
proof -
  let ?s = "digit_char d # z @ rest"
  from d have nows: "\<not> is_ws (digit_char d)" by (simp add: digit_char_not_ws)
  from d have nosign: "digit_char d \<noteq> CHR ''-''" "digit_char d \<noteq> CHR ''+''"
    by (simp_all add: digit_char_not_sign)
  from d have nozero: "digit_char d \<noteq> CHR ''0''" by (simp add: digit_char_zero)
  have first: "is_radix_digit 10 (digit_char d)"
    using d by (simp add: is_radix_digit_def digit_value_digit_char)
  have dig: "\<forall>c\<in>set z. is_radix_digit 10 c"
    using z by (auto simp: is_radix_digit_def digit_value_digit_char)
  have run: "takeWhile (is_radix_digit 10) (z @ rest) = z"
    by (rule takeWhile_run [OF dig rest])
  show ?thesis
    unfolding parseInt_string_def Let_def
    using nows nosign nozero first run by simp
qed


lemma parseInt_string_minus_run:
  assumes d: "0 < d" "d < 10"
      and z: "\<forall>c\<in>set z. \<exists>e<10. c = digit_char e"
      and rest: "rest = [] \<or> \<not> is_radix_digit 10 (hd rest)"
  shows "parseInt_string (CHR ''-'' # digit_char d # z @ rest) =
           Some (- int (to_number 10 (digit_char d # z)))"
proof -
  have nows: "\<not> is_ws CHR ''-''" by (simp add: is_ws_def)
  from d have nozero: "digit_char d \<noteq> CHR ''0''" by (simp add: digit_char_zero)
  have first: "is_radix_digit 10 (digit_char d)"
    using d by (simp add: is_radix_digit_def digit_value_digit_char)
  have dig: "\<forall>c\<in>set z. is_radix_digit 10 c"
    using z by (auto simp: is_radix_digit_def digit_value_digit_char)
  have run: "takeWhile (is_radix_digit 10) (z @ rest) = z"
    by (rule takeWhile_run [OF dig rest])
  show ?thesis
    unfolding parseInt_string_def Let_def
    using nows nozero first run by simp
qed

lemma parseInt_string_minus:
  "parseInt_string (CHR ''-'' # s) = None \<or> (\<exists>v. parseInt_string (CHR ''-'' # s) = Some (- int v))"
  by (simp add: parseInt_string_def Let_def is_ws_def)

lemma digits_split:
  assumes "0 < m"
  obtains d z where "0 < d" "d < 10" "\<forall>c\<in>set z. \<exists>e<10. c = digit_char e"
    "digits m = digit_char d # z"
proof -
  from hd_digits [OF assms] obtain d where d: "0 < d" "d < 10" "hd (digits m) = digit_char d"
    by blast
  from digits_nonempty [of m] obtain c z where cz: "digits m = c # z" by (cases "digits m") auto
  with d have "digits m = digit_char d # z" by simp
  moreover from digits_decimal [of m] cz have "\<forall>c\<in>set z. \<exists>e<10. c = digit_char e" by simp
  ultimately show thesis using d that by blast
qed

text \<open>The numbers from 100 up that print in positional notation read as at least 100.\<close>

lemma parseInt_number_large:
  assumes m: "m \<noteq> 0" and n: "3 \<le> n" "n \<le> 21"
  shows "\<exists>v\<ge>100. parseInt_string (number_to_string (Num False m n)) = Some v"
proof -
  from m have "0 < strip_zeros m" by (simp add: strip_zeros_pos)
  then obtain d z where d: "0 < d" "d < 10"
    and z: "\<forall>c\<in>set z. \<exists>e<10. c = digit_char e"
    and ds: "digits (strip_zeros m) = digit_char d # z"
    by (rule digits_split)
  let ?k = "int (length (digit_char d # z))"
  have zero: "\<exists>e<10. CHR ''0'' = digit_char e"
    by (rule exI [of _ 0]) (simp add: digit_char_def)
  have bound: "int (to_number 10 (digit_char d # y)) \<ge> 100" if "2 \<le> length y" for y
  proof -
    have "(10::nat) ^ 2 \<le> 10 ^ length y" using that by (intro power_increasing) simp_all
    also have "\<dots> \<le> to_number 10 (digit_char d # y)" by (rule to_number_lower [OF d])
    finally show ?thesis by simp
  qed
  show ?thesis
  proof (cases "?k \<le> n")
    case True
    let ?y = "z @ replicate (nat (n - ?k)) CHR ''0''"
    have y: "\<forall>c\<in>set ?y. \<exists>e<10. c = digit_char e"
      using z zero by auto
    have str: "number_to_string (Num False m n) = digit_char d # ?y @ []"
      using m n True by (simp add: number_to_string_def ds)
    have "2 \<le> length ?y" using True n by simp
    from bound [OF this] parseInt_string_run [OF d y, of "[]"] str show ?thesis by simp
  next
    case False
    let ?y = "take (nat n - 1) z"
    let ?rest = "CHR ''.'' # drop (nat n - 1) z"
    have y: "\<forall>c\<in>set ?y. \<exists>e<10. c = digit_char e"
      using z by (auto dest: in_set_takeD)
    have rest: "?rest = [] \<or> \<not> is_radix_digit 10 (hd ?rest)"
      by (simp add: is_radix_digit_def digit_value_def)
    have str: "number_to_string (Num False m n) = digit_char d # ?y @ ?rest"
      using m n False by (simp add: number_to_string_def ds take_Cons' drop_Cons')
    have "2 \<le> length ?y" using False n by simp
    from bound [OF this] parseInt_string_run [OF d y rest] str show ?thesis by simp
  qed
qed

lemma confidence_of_large:
  assumes "m \<noteq> 0" "3 \<le> n" "n \<le> 21"
  shows "confidence_of (JNum (Num False m n)) = Inr 100"
proof -
  from parseInt_number_large [OF assms] obtain v
    where "100 \<le> v" "parseInt_string (number_to_string (Num False m n)) = Some v" by blast
  then show ?thesis by (simp add: confidence_of_def parseInt_def or_zero_def)
qed

lemma parseInt_string_zero: "parseInt_string ''0'' = Some 0"
  by (simp add: eval_parse)

lemma parseInt_string_Infinity:
  "parseInt_string ''Infinity'' = None" "parseInt_string ''-Infinity'' = None"
  by (simp_all add: eval_parse)

lemma confidence_of_negative: "confidence_of (JNum (Num True m n)) = Inr 0"
proof (cases "m = 0")
  case True
  then show ?thesis
    by (simp add: confidence_of_def parseInt_def number_to_string_def parseInt_string_zero
          or_zero_def)
next
  case False
  then obtain s where "number_to_string (Num True m n) = CHR ''-'' # s"
    by (simp add: number_to_string_def)
  with parseInt_string_minus [of s] show ?thesis
    by (auto simp: confidence_of_def parseInt_def or_zero_def)
qed

lemma confidence_of_infinity: "confidence_of (JNum (Infinity neg)) = Inr 0"
  by (simp add: confidence_of_def parseInt_def number_to_string_def parseInt_string_Infinity
        or_zero_def)

lemma confidence_of_range:
  "confidence_of co = Inr c \<Longrightarrow> 0 \<le> c \<and> c \<le> 100"
  by (auto simp: confidence_of_def split: sum.splits)


text \<open>An integer below \<open>10\<^sup>2\<^sup>1\<close> in magnitude prints as its decimal digits and reads back.\<close>

lemma to_number_digits: "to_number 10 (digits m) = m"
proof (induction m rule: digits.induct)
  case (1 n)
  show ?case
  proof (cases "n < 10")
    case True
    then show ?thesis
      by (subst digits.simps) (simp add: to_number_def digit_value_digit_char)
  next
    case False
    have "to_number 10 (digits (n div 10) @ [digit_char (n mod 10)]) =
            to_number 10 (digits (n div 10)) * 10 + n mod 10"
      by (simp add: to_number_def digit_value_digit_char)
    with 1 False show ?thesis by (subst digits.simps) simp
  qed
qed

lemma length_digits_le: "m < 10 ^ k \<Longrightarrow> 0 < k \<Longrightarrow> length (digits m) \<le> k"
proof (induction m arbitrary: k rule: digits.induct)
  case (1 n)
  show ?case
  proof (cases "n < 10")
    case True
    with 1(3) show ?thesis by (subst digits.simps) simp
  next
    case False
    from 1(3) obtain j where k: "k = Suc j" by (cases k) auto
    with 1(2) False have "0 < j" by (cases j) auto
    moreover from 1(2) k have "n div 10 < 10 ^ j" by (simp add: less_mult_imp_div_less)
    ultimately have "length (digits (n div 10)) \<le> j" using 1(1) [OF False] by simp
    with False k show ?thesis by (subst digits.simps) simp
  qed
qed

lemma digits_strip_zeros:
  "0 < m \<Longrightarrow>
     length (digits (strip_zeros m)) \<le> length (digits m) \<and>
     digits m = digits (strip_zeros m) @
       replicate (length (digits m) - length (digits (strip_zeros m))) CHR ''0''"
proof (induction m rule: strip_zeros.induct)
  case (1 m)
  show ?case
  proof (cases "m mod 10 \<noteq> 0")
    case True
    then have "strip_zeros m = m" by (subst strip_zeros.simps) simp
    then show ?thesis by simp
  next
    case False
    with 1(2) have pos: "0 < m div 10" and big: "\<not> m < 10" by presburger+
    from False 1(2) have strip: "strip_zeros m = strip_zeros (m div 10)"
      by (subst strip_zeros.simps) simp
    from big False have dm: "digits m = digits (m div 10) @ [CHR ''0'']"
      by (subst digits.simps) (simp add: digit_char_def)
    from 1(1) pos False 1(2)
    have le: "length (digits (strip_zeros (m div 10))) \<le> length (digits (m div 10))"
      and eq: "digits (m div 10) = digits (strip_zeros (m div 10)) @
         replicate (length (digits (m div 10)) - length (digits (strip_zeros (m div 10)))) CHR ''0''"
      by simp_all
    have "digits m = (digits (strip_zeros (m div 10)) @
         replicate (length (digits (m div 10)) - length (digits (strip_zeros (m div 10)))) CHR ''0'')
         @ [CHR ''0'']"
      using dm eq by simp
    also have "\<dots> = digits (strip_zeros (m div 10)) @
         replicate (Suc (length (digits (m div 10)) - length (digits (strip_zeros (m div 10))))) CHR ''0''"
      by (simp add: replicate_append_same)
    finally show ?thesis using le strip dm by (simp add: Suc_diff_le)
  qed
qed

lemma number_to_string_int:
  assumes "0 < m" "m < 10 ^ 21"
  shows "number_to_string (Num neg m (int (length (digits m)))) =
           (if neg then ''-'' else []) @ digits m"
proof -
  from assms have "length (digits m) \<le> 21" by (simp add: length_digits_le)
  moreover note digits_strip_zeros [OF assms(1)]
  ultimately show ?thesis
    using assms(1)
    by (simp add: number_to_string_def nat_diff_distrib' flip: of_nat_diff)
qed

lemma parseInt_string_digits:
  assumes "0 < m"
  shows "parseInt_string (digits m) = Some (int m)"
    and "parseInt_string (CHR ''-'' # digits m) = Some (- int m)"
proof -
  from assms obtain d z where d: "0 < d" "d < 10"
    and z: "\<forall>c\<in>set z. \<exists>e<10. c = digit_char e"
    and ds: "digits m = digit_char d # z"
    by (rule digits_split)
  from parseInt_string_run [OF d z, of "[]"] to_number_digits [of m] ds
  show "parseInt_string (digits m) = Some (int m)" by simp
  from parseInt_string_minus_run [OF d z, of "[]"] to_number_digits [of m] ds
  show "parseInt_string (CHR ''-'' # digits m) = Some (- int m)" by simp
qed

lemma confidence_of_int:
  assumes "\<bar>i\<bar> < 10 ^ 21"
  shows "confidence_of (JNum (num_of_int i)) = Inr (max 0 (min 100 i))"
proof (cases "i = 0")
  case True
  then show ?thesis
    by (simp add: confidence_of_def parseInt_def num_of_int_def number_to_string_def
          parseInt_string_zero or_zero_def)
next
  case False
  let ?m = "nat \<bar>i\<bar>"
  from False have pos: "0 < ?m" by simp
  from assms have small: "?m < 10 ^ 21" by (simp add: nat_less_iff)
  have str: "number_to_string (num_of_int i) = (if i < 0 then ''-'' else []) @ digits ?m"
    unfolding num_of_int_def by (rule number_to_string_int [OF pos small])
  have "parseInt_string (number_to_string (num_of_int i)) = Some i"
    using parseInt_string_digits [OF pos] str by (cases "i < 0") simp_all
  then show ?thesis by (simp add: confidence_of_def parseInt_def or_zero_def)
qed

subsection \<open>What parseInt reads\<close>

lemma digit_value_table:
  "map digit_value ''0123456789abcdef'' = map Some [0, 1, 2, 3, 4, 5, 6, 7, 8, 9, 10, 11, 12, 13, 14, 15]"
  "map digit_value ''ABCDEF'' = map Some [10, 11, 12, 13, 14, 15]"
  by (simp_all add: digit_value_def)

lemma decimal_char_iff: "is_radix_digit 10 c \<longleftrightarrow> c \<in> set ''0123456789''"
  by (cases c) (auto simp: is_radix_digit_def digit_value_def Let_def split: if_splits)

lemma hex_char_iff: "is_radix_digit 16 c \<longleftrightarrow> c \<in> set ''0123456789abcdefABCDEF''"
  by (cases c) (auto simp: is_radix_digit_def digit_value_def Let_def split: if_splits)

lemma parseInt_string_ws:
  assumes "\<forall>c\<in>set w. is_ws c"
  shows "parseInt_string (w @ t) = parseInt_string t"
proof -
  from assms have "dropWhile is_ws (w @ t) = dropWhile is_ws t"
    by (simp add: dropWhile_append2)
  then show ?thesis by (simp add: parseInt_string_def)
qed

text \<open>What is read after the sign, in radix 10 and in radix 16.\<close>

lemma parseInt_string_signed_decimal:
  assumes "take 2 u \<noteq> ''0x''" and "take 2 u \<noteq> ''0X''"
      and "takeWhile (is_radix_digit 10) u = z"
  shows "parseInt_string (CHR ''-'' # u) = (if z = [] then None else Some (- int (to_number 10 z)))"
    and "parseInt_string (CHR ''+'' # u) = (if z = [] then None else Some (int (to_number 10 z)))"
  using assms by (simp_all add: parseInt_string_def is_ws_def)

lemma parseInt_string_signed_hex:
  assumes "take 2 u = ''0x'' \<or> take 2 u = ''0X''"
      and "takeWhile (is_radix_digit 16) (drop 2 u) = z"
  shows "parseInt_string (CHR ''-'' # u) = (if z = [] then None else Some (- int (to_number 16 z)))"
    and "parseInt_string (CHR ''+'' # u) = (if z = [] then None else Some (int (to_number 16 z)))"
  using assms by (auto simp add: parseInt_string_def is_ws_def)

lemma parseInt_string_unsigned_decimal:
  assumes "u = [] \<or> (\<not> is_ws (hd u) \<and> hd u \<noteq> CHR ''+'' \<and> hd u \<noteq> CHR ''-'')"
      and "take 2 u \<noteq> ''0x''" and "take 2 u \<noteq> ''0X''"
      and "takeWhile (is_radix_digit 10) u = z"
  shows "parseInt_string u = (if z = [] then None else Some (int (to_number 10 z)))"
proof (cases u)
  case Nil
  with assms(4) show ?thesis by (simp add: parseInt_string_def)
next
  case (Cons c cs)
  with assms(1) have "dropWhile is_ws u = u" "hd u \<noteq> CHR ''+''" "hd u \<noteq> CHR ''-''" by simp_all
  with assms(2,3,4) show ?thesis by (simp add: parseInt_string_def)
qed

lemma parseInt_string_unsigned_hex:
  assumes "take 2 u = ''0x'' \<or> take 2 u = ''0X''"
      and "takeWhile (is_radix_digit 16) (drop 2 u) = z"
  shows "parseInt_string u = (if z = [] then None else Some (int (to_number 16 z)))"
proof -
  from assms(1) obtain cs where u: "u = CHR ''0'' # cs" by (cases u) (auto simp: take_Cons')
  then have "dropWhile is_ws u = u" "hd u \<noteq> CHR ''+''" "hd u \<noteq> CHR ''-''" "u \<noteq> []"
    by (simp_all add: is_ws_def)
  with assms show ?thesis by (auto simp add: parseInt_string_def)
qed


lemma take2_decimal_run:
  assumes z: "z \<noteq> []" "\<forall>c\<in>set z. c \<in> set ''0123456789''"
      and nohex: "z = ''0'' \<longrightarrow> rest = [] \<or> (hd rest \<noteq> CHR ''x'' \<and> hd rest \<noteq> CHR ''X'')"
  shows "take 2 (z @ rest) \<noteq> ''0x''" and "take 2 (z @ rest) \<noteq> ''0X''"
proof -
  from z(1) obtain c z' where zc: "z = c # z'" by (cases z) auto
  show "take 2 (z @ rest) \<noteq> ''0x''"
  proof (cases z')
    case Nil
    with zc nohex show ?thesis by (cases rest) (auto simp: take_Cons')
  next
    case (Cons c' z'')
    with zc z(2) show ?thesis by (auto simp: take_Cons')
  qed
  show "take 2 (z @ rest) \<noteq> ''0X''"
  proof (cases z')
    case Nil
    with zc nohex show ?thesis by (cases rest) (auto simp: take_Cons')
  next
    case (Cons c' z'')
    with zc z(2) show ?thesis by (auto simp: take_Cons')
  qed
qed

lemma decimal_char_plain:
  assumes "c \<in> set ''0123456789''"
  shows "\<not> is_ws c" and "c \<noteq> CHR ''+''" and "c \<noteq> CHR ''-''"
  using assms by (auto simp: is_ws_def)

lemma parseInt_string_decimal:
  assumes w: "\<forall>c\<in>set w. is_ws c"
      and sg: "sg = [] \<or> sg = ''+'' \<or> sg = ''-''"
      and z: "z \<noteq> []" "\<forall>c\<in>set z. c \<in> set ''0123456789''"
      and rest: "rest = [] \<or> hd rest \<notin> set ''0123456789''"
      and nohex: "z = ''0'' \<longrightarrow> rest = [] \<or> (hd rest \<noteq> CHR ''x'' \<and> hd rest \<noteq> CHR ''X'')"
  shows "parseInt_string (w @ sg @ z @ rest) =
           Some (if sg = ''-'' then - int (to_number 10 z) else int (to_number 10 z))"
proof -
  let ?u = "z @ rest"
  have run: "takeWhile (is_radix_digit 10) ?u = z"
    using z(2) rest by (intro takeWhile_run) (simp_all only: decimal_char_iff)
  note nh = take2_decimal_run [OF z nohex]
  from z have "hd ?u \<in> set ''0123456789''" by (cases z) auto
  from decimal_char_plain [OF this] z(1)
  have plain: "?u = [] \<or> (\<not> is_ws (hd ?u) \<and> hd ?u \<noteq> CHR ''+'' \<and> hd ?u \<noteq> CHR ''-'')"
    by blast
  from sg z(1) show ?thesis
    using parseInt_string_unsigned_decimal [OF plain nh run]
      parseInt_string_signed_decimal [OF nh run]
    by (auto simp: parseInt_string_ws [OF w])
qed

lemma parseInt_string_hex:
  assumes w: "\<forall>c\<in>set w. is_ws c"
      and sg: "sg = [] \<or> sg = ''+'' \<or> sg = ''-''"
      and px: "px = ''0x'' \<or> px = ''0X''"
      and z: "\<forall>c\<in>set z. c \<in> set ''0123456789abcdefABCDEF''"
      and rest: "rest = [] \<or> hd rest \<notin> set ''0123456789abcdefABCDEF''"
  shows "parseInt_string (w @ sg @ px @ z @ rest) =
           (if z = [] then None
            else Some (if sg = ''-'' then - int (to_number 16 z) else int (to_number 16 z)))"
proof -
  let ?u = "px @ z @ rest"
  from px have pre: "take 2 ?u = ''0x'' \<or> take 2 ?u = ''0X''" by auto
  from px have "drop 2 ?u = z @ rest" by auto
  moreover have "takeWhile (is_radix_digit 16) (z @ rest) = z"
    using z rest by (intro takeWhile_run) (simp_all only: hex_char_iff)
  ultimately have run: "takeWhile (is_radix_digit 16) (drop 2 ?u) = z" by simp
  from sg show ?thesis
    using parseInt_string_unsigned_hex [OF pre run] parseInt_string_signed_hex [OF pre run]
    by (auto simp: parseInt_string_ws [OF w])
qed

lemma parseInt_string_no_digit:
  assumes w: "\<forall>c\<in>set w. is_ws c"
      and sg: "sg = [] \<or> sg = ''+'' \<or> sg = ''-''"
      and u: "u = [] \<or> hd u \<notin> set ''0123456789''"
      and plain: "sg = [] \<longrightarrow> u = [] \<or> (\<not> is_ws (hd u) \<and> hd u \<noteq> CHR ''+'' \<and> hd u \<noteq> CHR ''-'')"
  shows "parseInt_string (w @ sg @ u) = None"
proof -
  have run: "takeWhile (is_radix_digit 10) u = []"
    using u by (cases u) (simp_all add: decimal_char_iff del: set_simps list.set)
  have nh: "take 2 u \<noteq> ''0x''" "take 2 u \<noteq> ''0X''"
    using u by (cases u; auto simp: take_Cons')+
  from sg plain show ?thesis
    using parseInt_string_unsigned_decimal [OF _ nh run]
      parseInt_string_signed_decimal [OF nh run]
    by (auto simp: parseInt_string_ws [OF w])
qed

lemma to_number_Nil: "to_number r [] = 0"
  by (simp add: to_number_def)

lemma to_number_snoc:
  "to_number r (z @ [c]) =
     to_number r z * r + (case digit_value c of Some v \<Rightarrow> v | None \<Rightarrow> 0)"
  by (simp add: to_number_def)

lemma to_number_append:
  "to_number r (a @ b) = to_number r a * r ^ length b + to_number r b"
proof (induction b rule: rev_induct)
  case Nil
  then show ?case by (simp add: to_number_Nil)
next
  case (snoc c b)
  have "to_number r (a @ b @ [c]) = to_number r ((a @ b) @ [c])" by simp
  also have "\<dots> = to_number r (a @ b) * r + (case digit_value c of Some v \<Rightarrow> v | None \<Rightarrow> 0)"
    by (rule to_number_snoc)
  finally show ?case by (simp add: snoc to_number_snoc algebra_simps)
qed

lemma to_number_zeros: "to_number r (replicate j CHR ''0'') = 0"
proof (induction j)
  case 0
  then show ?case by (simp add: to_number_Nil)
next
  case (Suc j)
  have "replicate (Suc j) CHR ''0'' = replicate j CHR ''0'' @ [CHR ''0'']"
    by (simp add: replicate_append_same)
  with Suc show ?case by (simp only: to_number_snoc) (simp add: digit_value_def)
qed

lemma to_number_padded: "to_number 10 (replicate j CHR ''0'' @ digits m) = m"
  by (simp add: to_number_append to_number_zeros to_number_digits)

lemma to_number_upper:
  "\<forall>c\<in>set z. \<exists>e<10. c = digit_char e \<Longrightarrow> to_number 10 z < 10 ^ length z"
proof (induction z rule: rev_induct)
  case Nil
  then show ?case by (simp add: to_number_Nil)
next
  case (snoc c z)
  then obtain e where e: "e < 10" "c = digit_char e" by auto
  from snoc have "to_number 10 z < 10 ^ length z" by simp
  then have "to_number 10 z * 10 + e < 10 ^ length z * 10" using e(1) by simp
  with e show ?case by (simp add: to_number_snoc digit_value_digit_char)
qed

lemma to_number_take_digits:
  "to_number 10 (take j (digits a)) = a div 10 ^ (length (digits a) - j)"
proof -
  let ?ds = "digits a"
  have "to_number 10 (take j ?ds @ drop j ?ds) =
          to_number 10 (take j ?ds) * 10 ^ (length ?ds - j) + to_number 10 (drop j ?ds)"
    by (simp only: to_number_append length_drop)
  then have eq: "a = to_number 10 (take j ?ds) * 10 ^ (length ?ds - j) + to_number 10 (drop j ?ds)"
    by (simp add: to_number_digits)
  have "\<forall>c\<in>set (drop j ?ds). \<exists>e<10. c = digit_char e"
    using digits_decimal [of a] by (auto dest: in_set_dropD)
  from to_number_upper [OF this]
  have "to_number 10 (drop j ?ds) < 10 ^ (length ?ds - j)" by simp
  with eq show ?thesis
    by (metis div_mult_self3 div_less add.commute add_0 zero_less_numeral zero_less_power
          less_numeral_extra(3))
qed


lemma decimal_chars: "(\<exists>e<10. c = digit_char e) \<longleftrightarrow> c \<in> set ''0123456789''"
proof
  assume "\<exists>e<10. c = digit_char e"
  then obtain e where "e < 10" "c = digit_char e" by blast
  moreover from this have "e \<in> {0, 1, 2, 3, 4, 5, 6, 7, 8, 9}" by auto
  ultimately show "c \<in> set ''0123456789''" by (auto simp: digit_char_def)
next
  assume "c \<in> set ''0123456789''"
  then have "c = digit_char 0 \<or> c = digit_char 1 \<or> c = digit_char 2 \<or> c = digit_char 3 \<or>
    c = digit_char 4 \<or> c = digit_char 5 \<or> c = digit_char 6 \<or> c = digit_char 7 \<or>
    c = digit_char 8 \<or> c = digit_char 9"
    by (auto simp: digit_char_def)
  moreover have ex: "\<exists>e'<10. digit_char e = digit_char e'" if "e < 10" for e
    using that by blast
  ultimately show "\<exists>e<10. c = digit_char e"
    by (elim disjE; hypsubst; intro ex; simp)
qed

lemma digits_chars: "\<forall>c\<in>set (digits a). c \<in> set ''0123456789''"
  using digits_decimal [of a] by (simp only: decimal_chars)

lemma digits_less: "a < 10 ^ length (digits a)"
  using to_number_upper [OF digits_decimal, of a] by (simp add: to_number_digits)

lemma stripped_value:
  assumes "0 < m"
  shows "length (digits (strip_zeros m)) \<le> length (digits m)"
    and "m = strip_zeros m * 10 ^ (length (digits m) - length (digits (strip_zeros m)))"
proof -
  let ?s = "strip_zeros m"
  from digits_strip_zeros [OF assms]
  have le: "length (digits ?s) \<le> length (digits m)"
    and eq: "digits m = digits ?s @ replicate (length (digits m) - length (digits ?s)) CHR ''0''"
    by blast+
  show "length (digits ?s) \<le> length (digits m)" by (rule le)
  have "m = to_number 10 (digits m)" by (simp add: to_number_digits)
  also have "\<dots> = to_number 10 (digits ?s @ replicate (length (digits m) - length (digits ?s)) CHR ''0'')"
    using eq by simp
  also have "\<dots> = ?s * 10 ^ (length (digits m) - length (digits ?s))"
    by (simp add: to_number_append to_number_zeros to_number_digits)
  finally show "m = ?s * 10 ^ (length (digits m) - length (digits ?s))" .
qed

text \<open>The arithmetic of dropping trailing zeros: \<open>m = s \<times> 10\<^sup>K\<^sup>-\<^sup>k\<close>.\<close>

lemma scaled_up:
  fixes s :: nat
  assumes "k \<le> K" and "m = s * 10 ^ (K - k)" and "k \<le> j"
  shows "(if K \<le> j then m * 10 ^ (j - K) else m div 10 ^ (K - j)) = s * 10 ^ (j - k)"
proof (cases "K \<le> j")
  case True
  with assms have "(K - k) + (j - K) = j - k" by simp
  then have "s * 10 ^ (K - k) * 10 ^ (j - K) = s * 10 ^ (j - k)"
    by (metis mult.assoc power_add)
  with True assms(2) show ?thesis by simp
next
  case False
  with assms have "K - k = (j - k) + (K - j)" by simp
  then have "s * 10 ^ (K - k) = s * 10 ^ (j - k) * 10 ^ (K - j)"
    by (metis mult.assoc power_add)
  with False assms(2) show ?thesis by simp
qed

lemma scaled_down:
  fixes s :: nat
  assumes "k \<le> K" and "m = s * 10 ^ (K - k)" and "j \<le> k"
  shows "m div 10 ^ (K - j) = s div 10 ^ (k - j)"
proof -
  from assms have "K - j = (k - j) + (K - k)" by simp
  then have "(10::nat) ^ (K - j) = 10 ^ (k - j) * 10 ^ (K - k)" by (simp only: power_add)
  with assms(2) show ?thesis by simp
qed


lemma number_to_string_whole:
  assumes "m \<noteq> 0" and "int (length (digits (strip_zeros m))) \<le> n" and "n \<le> 21"
  shows "number_to_string (Num neg m n) =
           (if neg then ''-'' else []) @ digits (strip_zeros m) @
           replicate (nat (n - int (length (digits (strip_zeros m))))) CHR ''0''"
  using assms by (simp add: number_to_string_def Let_def)

lemma number_to_string_point:
  assumes "m \<noteq> 0" and "n < int (length (digits (strip_zeros m)))" and "0 < n" and "n \<le> 21"
  shows "number_to_string (Num neg m n) =
           (if neg then ''-'' else []) @ take (nat n) (digits (strip_zeros m)) @
           CHR ''.'' # drop (nat n) (digits (strip_zeros m))"
  using assms by (simp add: number_to_string_def Let_def)

lemma number_to_string_small:
  assumes "m \<noteq> 0" and "- 6 < n" and "n \<le> 0"
  shows "number_to_string (Num neg m n) =
           (if neg then ''-'' else []) @ ''0'' @
           CHR ''.'' # replicate (nat (- n)) CHR ''0'' @ digits (strip_zeros m)"
proof -
  have "\<not> int (length (digits (strip_zeros m))) \<le> n"
    using digits_nonempty [of "strip_zeros m"] assms(3) by (cases "digits (strip_zeros m)") auto
  with assms show ?thesis by (simp add: number_to_string_def Let_def)
qed

lemma number_to_string_expo:
  assumes "m \<noteq> 0" and "\<not> (- 6 < n \<and> n \<le> 21)"
  shows "number_to_string (Num neg m n) =
           (if neg then ''-'' else []) @ take 1 (digits (strip_zeros m)) @
           (if length (digits (strip_zeros m)) = 1 then []
            else CHR ''.'' # drop 1 (digits (strip_zeros m))) @
           CHR ''e'' # (if n - 1 < 0 then ''-'' else ''+'') @ digits (nat \<bar>n - 1\<bar>)"
proof -
  let ?ds = "digits (strip_zeros m)"
  have one: "take 1 ?ds = ?ds" if "length ?ds = 1" using that by simp
  from assms(2) consider (big) "21 < n" | (tiny) "n \<le> - 6" by linarith
  then show ?thesis
  proof cases
    case big
    show ?thesis
    proof (cases "length ?ds = 1")
      case True
      with big assms(1) one show ?thesis by (simp add: number_to_string_def Let_def)
    next
      case False
      with big assms(1) show ?thesis by (simp add: number_to_string_def Let_def)
    qed
  next
    case tiny
    show ?thesis
    proof (cases "length ?ds = 1")
      case True
      with tiny assms(1) one show ?thesis by (simp add: number_to_string_def Let_def)
    next
      case False
      with tiny assms(1) show ?thesis by (simp add: number_to_string_def Let_def)
    qed
  qed
qed


lemma nat_int_diff: "nat (int a - int b) = a - b"
  by simp

lemma integer_part_whole:
  assumes "0 < m" and "int (length (digits (strip_zeros m))) \<le> n"
  shows "integer_part m n =
           strip_zeros m * 10 ^ nat (n - int (length (digits (strip_zeros m))))"
proof -
  from assms(2) have "0 \<le> n" by simp
  then obtain j where n: "n = int j" by (metis nonneg_int_cases)
  with assms(2) have "length (digits (strip_zeros m)) \<le> j" by simp
  from scaled_up [OF stripped_value [OF assms(1)] this]
  show ?thesis unfolding n integer_part_def Let_def nat_int_diff of_nat_le_iff .
qed

lemma integer_part_point:
  assumes "0 < m" and "n < int (length (digits (strip_zeros m)))" and "0 < n"
  shows "integer_part m n = strip_zeros m div 10 ^ (length (digits (strip_zeros m)) - nat n)"
proof -
  from assms(3) obtain j where n: "n = int j" by (metis nonneg_int_cases less_imp_le)
  with assms(2) have j: "j \<le> length (digits (strip_zeros m))" by simp
  note sv = stripped_value [OF assms(1)]
  from j sv(1) assms(2) n have "\<not> length (digits m) \<le> j" by simp
  with scaled_down [OF sv j]
  show ?thesis unfolding n integer_part_def Let_def nat_int_diff of_nat_le_iff by simp
qed

lemma integer_part_small:
  assumes "n \<le> 0"
  shows "integer_part m n = 0"
proof -
  have "m < 10 ^ length (digits m)" by (rule digits_less)
  also have "(10::nat) ^ length (digits m) \<le> 10 ^ nat (int (length (digits m)) - n)"
    using assms by (intro power_increasing) simp_all
  finally have "m div 10 ^ nat (int (length (digits m)) - n) = 0" by simp
  moreover have "\<not> int (length (digits m)) \<le> n"
    using digits_nonempty [of m] assms by (cases "digits m") auto
  ultimately show ?thesis by (simp add: integer_part_def Let_def)
qed

lemma leading_digit_stripped:
  assumes "0 < m"
  shows "leading_digit m = strip_zeros m div 10 ^ (length (digits (strip_zeros m)) - 1)"
proof -
  have "1 \<le> length (digits (strip_zeros m))"
    using digits_nonempty [of "strip_zeros m"] by (cases "digits (strip_zeros m)") auto
  from scaled_down [OF stripped_value [OF assms] this]
  show ?thesis by (simp add: leading_digit_def)
qed


lemma all_take: "\<forall>c\<in>set ds. P c \<Longrightarrow> \<forall>c\<in>set (take j ds). P c"
  by (auto dest: in_set_takeD)

lemma all_append_replicate:
  "\<forall>c\<in>set ds. P c \<Longrightarrow> P x \<Longrightarrow> \<forall>c\<in>set (ds @ replicate j x). P c"
  by auto

lemma parseInt_string_rendered:
  assumes "z \<noteq> []" and "\<forall>c\<in>set z. c \<in> set ''0123456789''"
      and "rest = [] \<or> hd rest = CHR ''.'' \<or> hd rest = CHR ''e''"
  shows "parseInt_string ((if neg then ''-'' else []) @ z @ rest) =
           Some ((if neg then - 1 else 1) * int (to_number 10 z))"
proof -
  let ?sg = "if neg then ''-'' else []"
  have ws: "\<forall>c\<in>set ([]::string). is_ws c" by simp
  have sg: "?sg = [] \<or> ?sg = ''+'' \<or> ?sg = ''-''" by simp
  from assms(3) have r: "rest = [] \<or> hd rest \<notin> set ''0123456789''"
    and nh: "z = ''0'' \<longrightarrow> rest = [] \<or> (hd rest \<noteq> CHR ''x'' \<and> hd rest \<noteq> CHR ''X'')"
    by auto
  from parseInt_string_decimal [OF ws sg assms(1,2) r nh] show ?thesis
    by (cases neg) simp_all
qed

text \<open>What \<open>parseInt\<close> reads from the rendering of a number.\<close>

lemma parseInt_number:
  "parseInt_string (number_to_string (Num neg m n)) =
     Some ((if neg then - 1 else 1) *
           int (if - 6 < n \<and> n \<le> 21 then integer_part m n else leading_digit m))"
proof (cases "m = 0")
  case True
  have "number_to_string (Num neg 0 n) = ''0''" by (simp add: number_to_string_def)
  moreover have "integer_part 0 n = 0" "leading_digit 0 = 0"
    by (simp_all add: integer_part_def leading_digit_def Let_def)
  ultimately show ?thesis unfolding True by (simp add: parseInt_string_zero)
next
  case False
  let ?s = "strip_zeros m"
  let ?ds = "digits ?s"
  let ?sg = "if neg then ''-'' else []"
  from False have pos: "0 < m" by simp
  have chars: "\<forall>c\<in>set ?ds. c \<in> set ''0123456789''" by (rule digits_chars)
  have ne: "?ds \<noteq> []" by (rule digits_nonempty)
  consider (whole) "int (length ?ds) \<le> n" "n \<le> 21"
    | (point) "0 < n" "n < int (length ?ds)" "n \<le> 21"
    | (small) "- 6 < n" "n \<le> 0"
    | (expo) "\<not> (- 6 < n \<and> n \<le> 21)"
    by linarith
  then show ?thesis
  proof cases
    case whole
    let ?z = "?ds @ replicate (nat (n - int (length ?ds))) CHR ''0''"
    have str: "number_to_string (Num neg m n) = ?sg @ ?z @ []"
      using number_to_string_whole [OF False whole, of neg] by simp
    have z: "?z \<noteq> []" "\<forall>c\<in>set ?z. c \<in> set ''0123456789''"
      using ne by (simp, intro all_append_replicate [OF chars]) simp
    have "to_number 10 ?z = ?s * 10 ^ nat (n - int (length ?ds))"
      by (simp add: to_number_append to_number_zeros to_number_digits)
    also have "\<dots> = integer_part m n"
      by (rule integer_part_whole [OF pos whole(1), symmetric])
    finally have val: "to_number 10 ?z = integer_part m n" .
    from whole ne have cond: "- 6 < n \<and> n \<le> 21" by (cases ?ds) auto
    from parseInt_string_rendered [OF z, of "[]" neg] show ?thesis
      by (simp only: str val cond if_True simp_thms)
  next
    case point
    let ?z = "take (nat n) ?ds"
    let ?rest = "CHR ''.'' # drop (nat n) ?ds"
    have str: "number_to_string (Num neg m n) = ?sg @ ?z @ ?rest"
      by (rule number_to_string_point [OF False point(2,1,3)])
    have z: "?z \<noteq> []" "\<forall>c\<in>set ?z. c \<in> set ''0123456789''"
      using ne point(1) by (simp, intro all_take [OF chars])
    have "to_number 10 ?z = ?s div 10 ^ (length ?ds - nat n)"
      by (rule to_number_take_digits)
    also have "\<dots> = integer_part m n"
      by (rule integer_part_point [OF pos point(2,1), symmetric])
    finally have val: "to_number 10 ?z = integer_part m n" .
    from point have cond: "- 6 < n \<and> n \<le> 21" by simp
    from parseInt_string_rendered [OF z, of ?rest neg] show ?thesis
      by (simp only: str val cond if_True simp_thms list.sel)
  next
    case small
    let ?rest = "CHR ''.'' # replicate (nat (- n)) CHR ''0'' @ ?ds"
    have str: "number_to_string (Num neg m n) = ?sg @ ''0'' @ ?rest"
      by (rule number_to_string_small [OF False small])
    have z: "''0'' \<noteq> []" "\<forall>c\<in>set ''0''. c \<in> set ''0123456789''" by simp_all
    have "to_number 10 ''0'' = 0" by (simp add: to_number_def digit_value_def)
    also have "\<dots> = integer_part m n"
      by (rule integer_part_small [OF small(2), symmetric])
    finally have val: "to_number 10 ''0'' = integer_part m n" .
    from small have cond: "- 6 < n \<and> n \<le> 21" by simp
    from parseInt_string_rendered [OF z, of ?rest neg] show ?thesis
      by (simp only: str val cond if_True simp_thms list.sel)
  next
    case expo
    let ?z = "take 1 ?ds"
    let ?rest = "(if length ?ds = 1 then [] else CHR ''.'' # drop 1 ?ds) @
           CHR ''e'' # (if n - 1 < 0 then ''-'' else ''+'') @ digits (nat \<bar>n - 1\<bar>)"
    have str: "number_to_string (Num neg m n) = ?sg @ ?z @ ?rest"
      by (rule number_to_string_expo [OF False expo])
    have z: "?z \<noteq> []" "\<forall>c\<in>set ?z. c \<in> set ''0123456789''"
      using ne by (simp, intro all_take [OF chars])
    have rest: "?rest = [] \<or> hd ?rest = CHR ''.'' \<or> hd ?rest = CHR ''e''" by simp
    have "to_number 10 ?z = ?s div 10 ^ (length ?ds - 1)"
      by (rule to_number_take_digits)
    also have "\<dots> = leading_digit m"
      by (rule leading_digit_stripped [OF pos, symmetric])
    finally have val: "to_number 10 ?z = leading_digit m" .
    from parseInt_string_rendered [OF z rest, of neg] show ?thesis
      by (simp only: str val expo if_False simp_thms)
  qed
qed

lemma leading_digit_less: "leading_digit m < 10"
proof -
  have "m < 10 ^ length (digits m)" by (rule digits_less)
  also have "\<dots> = 10 ^ (length (digits m) - 1) * 10"
    using digits_nonempty [of m] by (cases "digits m") simp_all
  finally show ?thesis by (simp add: leading_digit_def less_mult_imp_div_less)
qed

lemma confidence_of_number:
  "confidence_of (JNum (Num neg m n)) =
     Inr (if neg then 0
          else if - 6 < n \<and> n \<le> 21 then min 100 (int (integer_part m n))
          else int (leading_digit m))"
  using leading_digit_less [of m]
  by (simp add: confidence_of_def parseInt_def or_zero_def parseInt_number)

lemma confidence_of_string:
  "confidence_of (JStr s) =
     Inr (max 0 (min 100 (case parseInt_string s of None \<Rightarrow> 0 | Some i \<Rightarrow> i)))"
  by (simp add: confidence_of_def parseInt_def or_zero_def)

lemma confidence_of_rendering:
  "to_string co = Some s \<Longrightarrow> confidence_of co = confidence_of (JStr s)"
  "to_string co = None \<Longrightarrow>
     confidence_of co = Inl (Error ''Cannot convert object to primitive value'')"
  by (simp_all add: confidence_of_def parseInt_def)

lemma confidence_of_simple:
  "confidence_of JUndefined = Inr 0" "confidence_of JNull = Inr 0"
  "confidence_of (JBool b) = Inr 0"
  by (simp_all add: confidence_of_def parseInt_def or_zero_def eval_parse)

lemma confidence_of_object:
  "confidence_of (JObj kvs) =
     (if map_of kvs ''toString'' = None then Inr 0
      else Inl (Error ''Cannot convert object to primitive value''))"
  by (simp add: confidence_of_def parseInt_def or_zero_def eval_parse)

lemma confidence_of_decimal_string:
  assumes "\<forall>c\<in>set w. is_ws c" and "sg = [] \<or> sg = ''+'' \<or> sg = ''-''"
      and "rest = [] \<or> hd rest \<notin> set ''0123456789''"
      and "j = 0 \<and> m = 0 \<longrightarrow> rest = [] \<or> hd rest \<notin> set ''xX''"
  shows "confidence_of (JStr (w @ sg @ replicate j CHR ''0'' @ digits m @ rest)) =
           Inr (if sg = ''-'' then 0 else min 100 (int m))"
proof -
  let ?z = "replicate j CHR ''0'' @ digits m"
  have zero: "CHR ''0'' \<in> set ''0123456789''" by simp
  have z: "?z \<noteq> []" "\<forall>c\<in>set ?z. c \<in> set ''0123456789''"
    using digits_nonempty [of m] digits_chars [of m] zero by (simp, simp only: set_append set_replicate_conv_if, auto)
  have "?z = ''0'' \<longrightarrow> j = 0 \<and> m = 0"
  proof
    assume eq: "?z = ''0''"
    then have "length ?z = 1" by simp
    with digits_nonempty [of m] have j: "j = 0" by (cases "digits m") auto
    have "to_number 10 ''0'' = 0" by (simp add: to_number_def digit_value_def)
    with eq j have "to_number 10 (digits m) = 0" by simp
    then have "m = 0" by (simp only: to_number_digits)
    with j show "j = 0 \<and> m = 0" ..
  qed
  with assms(4) have nh: "?z = ''0'' \<longrightarrow> rest = [] \<or> (hd rest \<noteq> CHR ''x'' \<and> hd rest \<noteq> CHR ''X'')"
    by auto
  from parseInt_string_decimal [OF assms(1,2) z assms(3) nh]
  have "parseInt_string (w @ sg @ ?z @ rest) = Some (if sg = ''-'' then - int m else int m)"
    by (simp only: to_number_padded)
  then show ?thesis by (simp add: confidence_of_string)
qed

lemma confidence_of_hex_string:
  assumes "\<forall>c\<in>set w. is_ws c" and "sg = [] \<or> sg = ''+'' \<or> sg = ''-''"
      and "px = ''0x'' \<or> px = ''0X''"
      and "\<forall>c\<in>set z. c \<in> set ''0123456789abcdefABCDEF''"
      and "rest = [] \<or> hd rest \<notin> set ''0123456789abcdefABCDEF''"
  shows "confidence_of (JStr (w @ sg @ px @ z @ rest)) =
           Inr (if sg = ''-'' then 0 else min 100 (int (to_number 16 z)))"
proof -
  have "z = [] \<Longrightarrow> to_number 16 z = 0" by (simp add: to_number_Nil)
  with parseInt_string_hex [OF assms] show ?thesis
    by (cases "z = []") (simp_all add: confidence_of_string)
qed

lemma confidence_of_no_digit_string:
  assumes "\<forall>c\<in>set w. is_ws c" and "sg = [] \<or> sg = ''+'' \<or> sg = ''-''"
      and "u = [] \<or> hd u \<notin> set ''0123456789''"
      and "sg = [] \<longrightarrow> u = [] \<or> (\<not> is_ws (hd u) \<and> hd u \<noteq> CHR ''+'' \<and> hd u \<noteq> CHR ''-'')"
  shows "confidence_of (JStr (w @ sg @ u)) = Inr 0"
  using parseInt_string_no_digit [OF assms] by (simp add: confidence_of_string)

lemma checker_confidence:
  "confidence (snd (checkRuleWithLLM ask pdfText r)) =
     (case ask (build_prompt pdfText r) of
        Parsed (JObj kvs) \<Rightarrow>
          (case lookup_prop kvs ''status'' of
             JStr s \<Rightarrow>
               (case confidence_of (lookup_prop kvs ''confidence'') of Inr c \<Rightarrow> c | Inl e \<Rightarrow> 0)
           | st \<Rightarrow>
               if truthy st then 0
               else (case confidence_of (lookup_prop kvs ''confidence'') of
                       Inr c \<Rightarrow> c | Inl e \<Rightarrow> 0))
      | _ \<Rightarrow> 0)"
proof (cases "ask (build_prompt pdfText r)")
  case (CallThrows m)
  then show ?thesis by (simp add: checkRuleWithLLM_def try_check_def)
next
  case (ParseThrows m)
  then show ?thesis by (simp add: checkRuleWithLLM_def try_check_def)
next
  case (Parsed result)
  show ?thesis
  proof (cases result)
    case (JObj kvs)
    show ?thesis
      using Parsed JObj
      by (cases "lookup_prop kvs ''status''")
         (auto simp: checkRuleWithLLM_def try_check_def format_response_def get_prop_def
            call_toLowerCase_def js_or_def split: jsnum.splits sum.splits)
  qed (use Parsed in \<open>simp_all add: checkRuleWithLLM_def try_check_def format_response_def
         get_prop_def call_toLowerCase_def js_or_def confidence_of_simple\<close>)
qed

subsection \<open>The checker\<close>

lemma toLowerCase_fail: "toLowerCase ''fail'' = ''fail''"
  by (simp add: toLowerCase_def lower_char_def upper_chars_def lower_chars_def)

lemma confidence_of_cases: "(\<exists>e. confidence_of co = Inl e \<and> to_string co = None) \<or> (\<exists>c. confidence_of co = Inr c \<and> to_string co \<noteq> None)"
  by (auto simp: confidence_of_def parseInt_def split: option.splits)

lemma checker_confidence_range:
  "0 \<le> confidence (snd (checkRuleWithLLM ask pdfText r)) \<and>
   confidence (snd (checkRuleWithLLM ask pdfText r)) \<le> 100"
proof (cases "try_check ask pdfText r")
  case (Inl e)
  then show ?thesis by (simp add: checkRuleWithLLM_def)
next
  case (Inr x)
  then obtain result where "format_response r result = Inr x"
    by (auto simp: try_check_def split: llm_outcome.splits)
  then obtain co where "confidence_of co = Inr (confidence x)"
    by (auto simp: format_response_def split: sum.splits)
  from confidence_of_range [OF this] Inr show ?thesis by (simp add: checkRuleWithLLM_def)
qed

lemma checker_confidence_object:
  assumes "ask (build_prompt pdfText r) = Parsed (JObj kvs)"
      and "lookup_prop kvs ''status'' = JUndefined \<or> (\<exists>s. lookup_prop kvs ''status'' = JStr s)"
  shows "confidence (snd (checkRuleWithLLM ask pdfText r)) =
           (case confidence_of (lookup_prop kvs ''confidence'') of Inr c \<Rightarrow> c | Inl e \<Rightarrow> 0)"
  using assms
  by (auto simp: checkRuleWithLLM_def try_check_def format_response_def get_prop_def
        call_toLowerCase_def js_or_def split: sum.splits)

lemma confidence_of_nan: "parseInt co = Inr None \<Longrightarrow> confidence_of co = Inr 0"
  by (simp add: confidence_of_def or_zero_def)

lemma confidence_of_missing: "confidence_of JUndefined = Inr 0"
  by (simp add: confidence_of_def parseInt_def or_zero_def eval_parse)

subsection \<open>The handler\<close>

lemma check_rule_events:
  "fst (check_rule ask pdfText r) = [] \<or> (\<exists>p. fst (check_rule ask pdfText r) = [CallLlm p])"
  by (cases r) (auto simp: check_rule_def checkRuleWithLLM_def)

lemma check_rules_events:
  "e \<in> set (concat (map fst (check_rules ask pdfText i rs))) \<Longrightarrow> \<exists>p. e = CallLlm p"
proof (induction rs arbitrary: i)
  case Nil
  then show ?case by simp
next
  case (Cons r rs)
  from check_rule_events [of "ask i" pdfText r] Cons show ?case by auto
qed

lemma promise_all_Inr: "promise_all ps = Inr xs \<Longrightarrow> ps = map Inr xs"
proof (induction ps arbitrary: xs rule: promise_all.induct)
  case 1
  then show ?case by simp
next
  case (2 e ps)
  then show ?case by simp
next
  case (3 x ps)
  then show ?case by (auto split: sum.splits)
qed

lemma promise_all_rejected:
  "Inl e \<in> set ps \<Longrightarrow> \<exists>e'. promise_all ps = Inl e' \<and> Inl e' \<in> set ps"
proof (induction ps rule: promise_all.induct)
  case 1
  then show ?case by simp
next
  case (2 e' ps)
  then show ?case by simp
next
  case (3 x ps)
  then show ?case by (auto split: sum.splits)
qed

lemma promise_all_fulfilled: "promise_all (map Inr xs) = Inr xs"
  by (induction xs) simp_all

lemma handler_checks:
  assumes "req_file req = Some f" and "body_rules req = Value (JArr rs)" and "rs \<noteq> []"
      and "files st (path f) = Some bytes" and "pdfParse en bytes = Inr pdfText"
      and "js_trim pdfText \<noteq> []"
  shows "handler en req st =
     (let outs = check_rules (llm en) pdfText 0 rs;
          st' = st\<lparr>files := (files st)(path f := None),
                    events := events st @ [ReadFile (path f), ExtractText, Unlink (path f)]
                                @ concat (map fst outs)\<rparr>
      in case promise_all (map snd outs) of
           Inr results \<Rightarrow> (Results results, st'\<lparr>events := events st' @ [Send 200]\<rparr>)
         | Inl e \<Rightarrow> (Failure 500 ''Failed to process PDF'' (Some (message e)),
                      st'\<lparr>events := events st' @ [Send 500]\<rparr>))"
proof -
  from assms(3) obtain x xs where rs: "rs = x # xs" by (cases rs) auto
  from assms(6) have "pdfText \<noteq> []" by (auto simp: js_trim_def)
  with assms(1,2,4,5,6) show ?thesis
    unfolding rs
    by (simp add: handler_def try_handle_def process_def readFileSync_def unlinkSync_def
          send_def emit_def Let_def split: sum.splits)
qed

lemma check_rule_error:
  "snd (check_rule ask pdfText r) = Inl e \<Longrightarrow> e = Error ''rule.trim is not a function''"
  by (cases r) (auto simp: check_rule_def split: if_splits prod.splits)

lemma check_rule_non_string:
  assumes "truthy r" and "\<forall>s. r \<noteq> JStr s"
  shows "snd (check_rule ask pdfText r) = Inl (Error ''rule.trim is not a function'')"
  using assms by (cases r) (auto simp: check_rule_def)

lemma check_rule_valid:
  assumes "(\<exists>s. r = JStr s) \<or> \<not> truthy r"
  shows "\<exists>x. snd (check_rule ask pdfText r) = Inr x \<and> rule x = js_or r (JStr ''Empty rule'')"
proof (cases "truthy r")
  case False
  then show ?thesis by (simp add: check_rule_def empty_rule_result_def)
next
  case True
  with assms obtain s where "r = JStr s" by blast
  with True show ?thesis
    by (auto simp: check_rule_def empty_rule_result_def js_or_def checkRuleWithLLM_def
          try_check_def format_response_def split: sum.splits llm_outcome.splits)
qed

lemma check_rules_set:
  "out \<in> set (check_rules ask pdfText i rs) \<Longrightarrow>
     \<exists>j<length rs. out = check_rule (ask (i + j)) pdfText (rs ! j)"
  by (metis check_rules_length check_rules_nth in_set_conv_nth)

lemma date_rules_outcomes:
  "map snd (check_rules ask pdfText 0 date_rules) =
     map Inr [snd (checkRuleWithLLM (ask 0) pdfText ''Document mentions a date.''),
              \<lparr>rule = JStr ''Empty rule'', status = ''fail'',
               evidence = JStr ''No rule provided'',
               reasoning = JStr ''Rule is empty or invalid'', confidence = 0\<rparr>,
              snd (checkRuleWithLLM (ask 2) pdfText ''Document has a summary.'')]"
  by (simp add: date_rules_def check_rule_def empty_rule_result_def js_or_def js_trim_def
        is_ws_def case_prod_beta numeral_2_eq_2)

lemma handler_extraction_fails:
  assumes "req_file req = Some f" and "body_rules req = Value (JArr rs)" and "rs \<noteq> []"
      and "files st (path f) = Some bytes" and "pdfParse en bytes = Inl e"
  shows "handler en req st =
           (Failure 500 ''Failed to process PDF'' (Some (message e)),
            st\<lparr>files := (files st)(path f := None),
               events := events st @ [ReadFile (path f), ExtractText, Unlink (path f), Send 500]\<rparr>)"
proof -
  from assms(3) obtain x xs where rs: "rs = x # xs" by (cases rs) auto
  from assms(1,2,4,5) show ?thesis
    unfolding rs
    by (simp add: handler_def try_handle_def process_def readFileSync_def unlinkSync_def
          send_def emit_def Let_def)
qed

lemma handler_text_blank:
  assumes "req_file req = Some f" and "body_rules req = Value (JArr rs)" and "rs \<noteq> []"
      and "files st (path f) = Some bytes" and "pdfParse en bytes = Inr pdfText"
      and "js_trim pdfText = []"
  shows "handler en req st =
           (Failure 400 ''Could not extract text from PDF'' None,
            st\<lparr>files := (files st)(path f := None),
               events := events st @ [ReadFile (path f), ExtractText, Unlink (path f), Send 400]\<rparr>)"
proof -
  from assms(3) obtain x xs where rs: "rs = x # xs" by (cases rs) auto
  from assms(1,2,4,5,6) show ?thesis
    unfolding rs
    by (simp add: handler_def try_handle_def process_def readFileSync_def unlinkSync_def
          send_def emit_def Let_def)
qed

lemma handler_rules_refused:
  assumes "req_file req = Some f" and "files st (path f) \<noteq> None"
      and "body_rules req = Unparsable \<or>
           (\<exists>v. body_rules req = Value v \<and> (\<forall>x xs. v \<noteq> JArr (x # xs)))"
  shows "\<exists>msg. handler en req st =
           (Failure 400 msg None,
            st\<lparr>files := (files st)(path f := None),
               events := events st @ [Unlink (path f), Send 400]\<rparr>)"
proof (cases "body_rules req")
  case Unparsable
  with assms(1,2) show ?thesis
    by (auto simp: handler_def try_handle_def unlinkSync_def send_def emit_def)
next
  case (Value v)
  with assms(3) have no: "\<forall>x xs. v \<noteq> JArr (x # xs)" by simp
  have "process en f v st =
          (Inr (Failure 400 ''At least one rule is required'' None),
           st\<lparr>files := (files st)(path f := None),
              events := events st @ [Unlink (path f), Send 400]\<rparr>)"
  proof (cases v)
    case (JArr ys)
    with no have "ys = []" by (cases ys) auto
    with JArr assms(2) show ?thesis
      by (auto simp: process_def unlinkSync_def send_def emit_def)
  qed (use assms(2) in \<open>auto simp: process_def unlinkSync_def send_def emit_def\<close>)
  with Value assms(1) show ?thesis by (simp add: handler_def try_handle_def)
qed

lemma sample_run:
  "req_file (sample_request rs) = Some sample_upload"
  "body_rules (sample_request rs) = Value (JArr rs)"
  "files sample_state (path sample_upload) = Some ''%PDF-1.4 ...''"
  "pdfParse sample_env ''%PDF-1.4 ...'' = Inr ''Published 2024''"
  "js_trim ''Published 2024'' \<noteq> []"
  by (simp_all add: sample_request_def sample_upload_def sample_state_def sample_env_def
        sample_pdfParse_def js_trim_def is_ws_def)

lemma text_run:
  "req_file text_request = Some text_upload"
  "body_rules text_request = Value (JArr two_rules)"
  "two_rules \<noteq> []"
  "files text_state (path text_upload) = Some ''hello''"
  "pdfParse sample_env ''hello'' = Inl (Error ''Invalid PDF structure'')"
  by (simp_all add: text_request_def text_upload_def text_state_def sample_env_def
        sample_pdfParse_def two_rules_def)

section \<open>The claims\<close>

text \<open>
  C1, as the code has it. The status is the upstream status in lower case when that is a
  string that is not empty and the result is formatted without an error, and \<open>fail\<close>
  in every other case: a status that is missing, falsy or no string, a reply that is no
  object, a call or a parse that throws. The value is not checked against \<open>pass\<close> and
  \<open>fail\<close>: \<open>PASS\<close> comes out as \<open>pass\<close>, and \<open>unknown\<close> as \<open>unknown\<close>.
\<close>

theorem status_lowercased_or_fail:
  "status (snd (checkRuleWithLLM ask pdfText r)) =
     (case ask (build_prompt pdfText r) of
        Parsed (JObj kvs) \<Rightarrow>
          (case lookup_prop kvs ''status'' of
             JStr s \<Rightarrow>
               if s \<noteq> [] \<and> to_string (lookup_prop kvs ''confidence'') \<noteq> None
               then toLowerCase s else ''fail''
           | _ \<Rightarrow> ''fail'')
      | _ \<Rightarrow> ''fail'')"
proof (cases "ask (build_prompt pdfText r)")
  case (CallThrows m)
  then show ?thesis by (simp add: checkRuleWithLLM_def try_check_def)
next
  case (ParseThrows m)
  then show ?thesis by (simp add: checkRuleWithLLM_def try_check_def)
next
  case (Parsed result)
  show ?thesis
  proof (cases result)
    case (JObj kvs)
    from confidence_of_cases [of "lookup_prop kvs ''confidence''"]
    show ?thesis
      using Parsed JObj
      by (cases "lookup_prop kvs ''status''")
         (auto simp: checkRuleWithLLM_def try_check_def format_response_def get_prop_def
            call_toLowerCase_def js_or_def toLowerCase_fail split: jsnum.splits)
  qed (use Parsed in \<open>simp_all add: checkRuleWithLLM_def try_check_def format_response_def
         get_prop_def call_toLowerCase_def js_or_def toLowerCase_fail confidence_of_def parseInt_def\<close>)
qed

theorem status_lowercased_or_fail_witness:
  "status (snd (checkRuleWithLLM shouting_llm ''Published 2024'' ''Document mentions a date.'')) = ''pass''"
  using status_lowercased_or_fail [of shouting_llm "''Published 2024''" "''Document mentions a date.''"]
  by (simp add: shouting_llm_def lookup_prop_def eval_number toLowerCase_def lower_char_def
        upper_chars_def lower_chars_def)

theorem status_unknown_counterexample:
  "status (snd (checkRuleWithLLM unknown_llm ''Published 2024'' ''Document mentions a date.'')) = ''unknown''
   \<and> status (snd (checkRuleWithLLM unknown_llm ''Published 2024'' ''Document mentions a date.'')) \<noteq> ''pass''
   \<and> status (snd (checkRuleWithLLM unknown_llm ''Published 2024'' ''Document mentions a date.'')) \<noteq> ''fail''"
  by (simp add: unknown_llm_def eval_check eval_parseInt eval_number)

text \<open>
  C2, as the code has it. The confidence of every result is an integer from 0 to 100.
  It is line 164 on the confidence of the reply whenever the reply is an object whose
  status is a string or falsy, and 0 for every other reply. Line 164 is 0 for a missing
  value, for null, for a boolean and for whatever reads as NaN; for a value printed as
  \<open>s\<close> it is what it is for the string \<open>s\<close>. For a string it skips white space and a
  sign, then reads the digits that follow, in radix 16 after \<open>0x\<close> and in radix 10
  otherwise, up to the first character that is no digit; no digit gives 0; the integer read
  is clamped to the range, a negative one giving 0. For a number it is the integer part
  clamped, as long as the number prints in positional notation (from \<open>10\<^sup>-\<^sup>6\<close> up and below
  \<open>10\<^sup>2\<^sup>1\<close>), so that every such number from 100 up gives 100 and every negative number
  gives 0. A number outside that range prints in exponent notation, of which \<open>parseInt\<close>
  reads the leading digit only, and an infinity gives 0.
\<close>

theorem confidence_clamped:
  "0 \<le> confidence (snd (checkRuleWithLLM ask pdfText r))
   \<and> confidence (snd (checkRuleWithLLM ask pdfText r)) \<le> 100
   \<and> confidence (snd (checkRuleWithLLM ask pdfText r)) =
       (case ask (build_prompt pdfText r) of
          Parsed (JObj kvs) \<Rightarrow>
            (case lookup_prop kvs ''status'' of
               JStr s \<Rightarrow>
                 (case confidence_of (lookup_prop kvs ''confidence'') of
                    Inr c \<Rightarrow> c | Inl e \<Rightarrow> 0)
             | st \<Rightarrow>
                 if truthy st then 0
                 else (case confidence_of (lookup_prop kvs ''confidence'') of
                         Inr c \<Rightarrow> c | Inl e \<Rightarrow> 0))
        | _ \<Rightarrow> 0)
   \<and> confidence_of JUndefined = Inr 0
   \<and> confidence_of JNull = Inr 0
   \<and> (\<forall>b. confidence_of (JBool b) = Inr 0)
   \<and> (\<forall>co. parseInt co = Inr None \<longrightarrow> confidence_of co = Inr 0)
   \<and> (\<forall>neg m n. confidence_of (JNum (Num neg m n)) =
          Inr (if neg then 0
               else if - 6 < n \<and> n \<le> 21 then min 100 (int (integer_part m n))
               else int (leading_digit m)))
   \<and> (\<forall>neg. confidence_of (JNum (Infinity neg)) = Inr 0)
   \<and> (\<forall>m n. confidence_of (JNum (Num True m n)) = Inr 0)
   \<and> (\<forall>m n. m \<noteq> 0 \<and> 3 \<le> n \<and> n \<le> 21 \<longrightarrow> confidence_of (JNum (Num False m n)) = Inr 100)
   \<and> (\<forall>i. \<bar>i\<bar> < 10 ^ 21 \<longrightarrow> confidence_of (JNum (num_of_int i)) = Inr (max 0 (min 100 i)))
   \<and> (\<forall>w sg j m rest.
          (\<forall>c\<in>set w. is_ws c) \<and> (sg = [] \<or> sg = ''+'' \<or> sg = ''-'') \<and>
          (rest = [] \<or> hd rest \<notin> set ''0123456789'') \<and>
          (j = 0 \<and> m = 0 \<longrightarrow> rest = [] \<or> hd rest \<notin> set ''xX'') \<longrightarrow>
          confidence_of (JStr (w @ sg @ replicate j CHR ''0'' @ digits m @ rest)) =
            Inr (if sg = ''-'' then 0 else min 100 (int m)))
   \<and> (\<forall>w sg px z rest.
          (\<forall>c\<in>set w. is_ws c) \<and> (sg = [] \<or> sg = ''+'' \<or> sg = ''-'') \<and>
          (px = ''0x'' \<or> px = ''0X'') \<and>
          (\<forall>c\<in>set z. c \<in> set ''0123456789abcdefABCDEF'') \<and>
          (rest = [] \<or> hd rest \<notin> set ''0123456789abcdefABCDEF'') \<longrightarrow>
          confidence_of (JStr (w @ sg @ px @ z @ rest)) =
            Inr (if sg = ''-'' then 0 else min 100 (int (to_number 16 z))))
   \<and> (\<forall>w sg u.
          (\<forall>c\<in>set w. is_ws c) \<and> (sg = [] \<or> sg = ''+'' \<or> sg = ''-'') \<and>
          (u = [] \<or> hd u \<notin> set ''0123456789'') \<and>
          (sg = [] \<longrightarrow> u = [] \<or> (\<not> is_ws (hd u) \<and> hd u \<noteq> CHR ''+'' \<and> hd u \<noteq> CHR ''-'')) \<longrightarrow>
          confidence_of (JStr (w @ sg @ u)) = Inr 0)
   \<and> (\<forall>rd. to_number rd [] = 0)
   \<and> (\<forall>rd z c. to_number rd (z @ [c]) =
          to_number rd z * rd + (case digit_value c of Some v \<Rightarrow> v | None \<Rightarrow> 0))
   \<and> map digit_value ''0123456789abcdef'' =
       map Some [0, 1, 2, 3, 4, 5, 6, 7, 8, 9, 10, 11, 12, 13, 14, 15]
   \<and> map digit_value ''ABCDEF'' = map Some [10, 11, 12, 13, 14, 15]
   \<and> (\<forall>co s. to_string co = Some s \<longrightarrow> confidence_of co = confidence_of (JStr s))
   \<and> (\<forall>co. to_string co = None \<longrightarrow>
          confidence_of co = Inl (Error ''Cannot convert object to primitive value''))
   \<and> (\<forall>kvs. confidence_of (JObj kvs) =
          (if map_of kvs ''toString'' = None then Inr 0
           else Inl (Error ''Cannot convert object to primitive value'')))"
proof -
  note range = checker_confidence_range [of ask pdfText r]
  have lo: "0 \<le> confidence (snd (checkRuleWithLLM ask pdfText r))"
    and hi: "confidence (snd (checkRuleWithLLM ask pdfText r)) \<le> 100"
    using range by simp_all
  note link = checker_confidence [of ask pdfText r]
  have simple: "confidence_of JUndefined = Inr 0" "confidence_of JNull = Inr 0"
    "\<forall>b. confidence_of (JBool b) = Inr 0"
    by (simp_all add: confidence_of_simple)
  have nan: "\<forall>co. parseInt co = Inr None \<longrightarrow> confidence_of co = Inr 0"
    by (intro allI impI) (rule confidence_of_nan)
  have number: "\<forall>neg m n. confidence_of (JNum (Num neg m n)) =
          Inr (if neg then 0
               else if - 6 < n \<and> n \<le> 21 then min 100 (int (integer_part m n))
               else int (leading_digit m))"
    by (intro allI) (rule confidence_of_number)
  have inf: "\<forall>neg. confidence_of (JNum (Infinity neg)) = Inr 0"
    by (intro allI) (rule confidence_of_infinity)
  have negative: "\<forall>m n. confidence_of (JNum (Num True m n)) = Inr 0"
    by (intro allI) (rule confidence_of_negative)
  have large: "\<forall>m n. m \<noteq> 0 \<and> 3 \<le> n \<and> n \<le> 21 \<longrightarrow>
      confidence_of (JNum (Num False m n)) = Inr 100"
    by (intro allI impI, elim conjE) (rule confidence_of_large)
  have ints: "\<forall>i. \<bar>i\<bar> < 10 ^ 21 \<longrightarrow>
      confidence_of (JNum (num_of_int i)) = Inr (max 0 (min 100 i))"
    by (intro allI impI) (rule confidence_of_int)
  have decimal: "\<forall>w sg j m rest.
          (\<forall>c\<in>set w. is_ws c) \<and> (sg = [] \<or> sg = ''+'' \<or> sg = ''-'') \<and>
          (rest = [] \<or> hd rest \<notin> set ''0123456789'') \<and>
          (j = 0 \<and> m = 0 \<longrightarrow> rest = [] \<or> hd rest \<notin> set ''xX'') \<longrightarrow>
          confidence_of (JStr (w @ sg @ replicate j CHR ''0'' @ digits m @ rest)) =
            Inr (if sg = ''-'' then 0 else min 100 (int m))"
    by (intro allI impI, elim conjE) (rule confidence_of_decimal_string)
  have hex: "\<forall>w sg px z rest.
          (\<forall>c\<in>set w. is_ws c) \<and> (sg = [] \<or> sg = ''+'' \<or> sg = ''-'') \<and>
          (px = ''0x'' \<or> px = ''0X'') \<and>
          (\<forall>c\<in>set z. c \<in> set ''0123456789abcdefABCDEF'') \<and>
          (rest = [] \<or> hd rest \<notin> set ''0123456789abcdefABCDEF'') \<longrightarrow>
          confidence_of (JStr (w @ sg @ px @ z @ rest)) =
            Inr (if sg = ''-'' then 0 else min 100 (int (to_number 16 z)))"
    by (intro allI impI, elim conjE) (rule confidence_of_hex_string)
  have none: "\<forall>w sg u.
          (\<forall>c\<in>set w. is_ws c) \<and> (sg = [] \<or> sg = ''+'' \<or> sg = ''-'') \<and>
          (u = [] \<or> hd u \<notin> set ''0123456789'') \<and>
          (sg = [] \<longrightarrow> u = [] \<or> (\<not> is_ws (hd u) \<and> hd u \<noteq> CHR ''+'' \<and> hd u \<noteq> CHR ''-'')) \<longrightarrow>
          confidence_of (JStr (w @ sg @ u)) = Inr 0"
    by (intro allI impI, elim conjE) (rule confidence_of_no_digit_string)
  have horner: "\<forall>rd. to_number rd [] = 0"
    "\<forall>rd z c. to_number rd (z @ [c]) =
          to_number rd z * rd + (case digit_value c of Some v \<Rightarrow> v | None \<Rightarrow> 0)"
    by (simp_all add: to_number_Nil to_number_snoc)
  note table = digit_value_table
  have rendering:
    "\<forall>co s. to_string co = Some s \<longrightarrow> confidence_of co = confidence_of (JStr s)"
    "\<forall>co. to_string co = None \<longrightarrow>
          confidence_of co = Inl (Error ''Cannot convert object to primitive value'')"
    by (intro allI impI, rule confidence_of_rendering, assumption)+
  have object: "\<forall>kvs. confidence_of (JObj kvs) =
          (if map_of kvs ''toString'' = None then Inr 0
           else Inl (Error ''Cannot convert object to primitive value''))"
    by (intro allI) (rule confidence_of_object)
  show ?thesis
    by (intro conjI)
       (rule lo, rule hi, rule link, rule simple(1), rule simple(2), rule simple(3), rule nan,
        rule number, rule inf, rule negative, rule large, rule ints, rule decimal, rule hex,
        rule none, rule horner(1), rule horner(2), rule table(1), rule table(2),
        rule rendering(1), rule rendering(2), rule object)
qed

theorem confidence_clamped_witness:
  "confidence (snd (checkRuleWithLLM shouting_llm ''Published 2024'' ''Document mentions a date.'')) = 100
   \<and> confidence (snd (checkRuleWithLLM null_status_llm ''Published 2024'' ''Document mentions a date.'')) = 100
   \<and> confidence_of (JStr ''85'') = Inr 85
   \<and> confidence_of (JStr '' -7.5'') = Inr 0
   \<and> confidence_of (JNum (Num False 925 2)) = Inr 92"
proof -
  note all = confidence_clamped [of shouting_llm "''Published 2024''" "''Document mentions a date.''"]
  note all' = confidence_clamped [of null_status_llm "''Published 2024''" "''Document mentions a date.''"]
  from all have ints: "\<forall>i. \<bar>i\<bar> < 10 ^ 21 \<longrightarrow>
      confidence_of (JNum (num_of_int i)) = Inr (max 0 (min 100 i))"
    by (elim conjE)
  then have c150: "confidence_of (JNum (num_of_int 150)) = Inr 100" by simp
  from all have "confidence (snd (checkRuleWithLLM shouting_llm ''Published 2024'' ''Document mentions a date.'')) =
       (case shouting_llm (build_prompt ''Published 2024'' ''Document mentions a date.'') of
          Parsed (JObj kvs) \<Rightarrow>
            (case lookup_prop kvs ''status'' of
               JStr s \<Rightarrow>
                 (case confidence_of (lookup_prop kvs ''confidence'') of
                    Inr c \<Rightarrow> c | Inl e \<Rightarrow> 0)
             | st \<Rightarrow>
                 if truthy st then 0
                 else (case confidence_of (lookup_prop kvs ''confidence'') of
                         Inr c \<Rightarrow> c | Inl e \<Rightarrow> 0))
        | _ \<Rightarrow> 0)"
    by (elim conjE)
  with c150 have one: "confidence (snd (checkRuleWithLLM shouting_llm ''Published 2024'' ''Document mentions a date.'')) = 100"
    by (simp add: shouting_llm_def lookup_prop_def)
  from all' have "confidence (snd (checkRuleWithLLM null_status_llm ''Published 2024'' ''Document mentions a date.'')) =
       (case null_status_llm (build_prompt ''Published 2024'' ''Document mentions a date.'') of
          Parsed (JObj kvs) \<Rightarrow>
            (case lookup_prop kvs ''status'' of
               JStr s \<Rightarrow>
                 (case confidence_of (lookup_prop kvs ''confidence'') of
                    Inr c \<Rightarrow> c | Inl e \<Rightarrow> 0)
             | st \<Rightarrow>
                 if truthy st then 0
                 else (case confidence_of (lookup_prop kvs ''confidence'') of
                         Inr c \<Rightarrow> c | Inl e \<Rightarrow> 0))
        | _ \<Rightarrow> 0)"
    by (elim conjE)
  with c150 have two: "confidence (snd (checkRuleWithLLM null_status_llm ''Published 2024'' ''Document mentions a date.'')) = 100"
    by (simp add: null_status_llm_def lookup_prop_def)
  from all have decimal: "\<forall>w sg j m rest.
          (\<forall>c\<in>set w. is_ws c) \<and> (sg = [] \<or> sg = ''+'' \<or> sg = ''-'') \<and>
          (rest = [] \<or> hd rest \<notin> set ''0123456789'') \<and>
          (j = 0 \<and> m = 0 \<longrightarrow> rest = [] \<or> hd rest \<notin> set ''xX'') \<longrightarrow>
          confidence_of (JStr (w @ sg @ replicate j CHR ''0'' @ digits m @ rest)) =
            Inr (if sg = ''-'' then 0 else min 100 (int m))"
    by (elim conjE)
  have d85: "digits 85 = ''85''" and d7: "digits 7 = ''7''"
    by (simp_all add: digits.simps digit_char_def)
  from decimal [rule_format, of "[]" "[]" "[]" 0 85] d85
  have three: "confidence_of (JStr ''85'') = Inr 85" by simp
  from decimal [rule_format, of "'' ''" "''-''" "''.5''" 0 7] d7
  have four: "confidence_of (JStr '' -7.5'') = Inr 0" by (simp add: is_ws_def)
  from all have "\<forall>neg m n. confidence_of (JNum (Num neg m n)) =
          Inr (if neg then 0
               else if - 6 < n \<and> n \<le> 21 then min 100 (int (integer_part m n))
               else int (leading_digit m))"
    by (elim conjE)
  then have "confidence_of (JNum (Num False 925 2)) =
      Inr (min 100 (int (integer_part 925 2)))" by simp
  moreover have "integer_part 925 2 = 92"
    by (simp add: integer_part_def digits.simps digit_char_def)
  ultimately have five: "confidence_of (JNum (Num False 925 2)) = Inr 92" by simp
  from one two three four five show ?thesis by (intro conjI)
qed

theorem confidence_huge_counterexample:
  "confidence (snd (checkRuleWithLLM huge_llm ''Published 2024'' ''Document mentions a date.'')) = 1"
  by (simp add: huge_llm_def eval_check eval_parseInt eval_number)

text \<open>
  C3. When the call to the service, or the parse of its reply, throws for a rule, the
  single-rule checker returns the result with status \<open>fail\<close>, evidence
  \<open>Error processing rule\<close>, the message in the reasoning and confidence 0. In the array
  of the request the promise of that rule is fulfilled with this result, and every other
  position holds what the callback gives for its own rule and its own reply.
\<close>

theorem llm_failure_contained:
  assumes "ask i (build_prompt pdfText r) = CallThrows m \<or>
           ask i (build_prompt pdfText r) = ParseThrows m"
  shows "snd (checkRuleWithLLM (ask i) pdfText r) =
           \<lparr>rule = JStr r, status = ''fail'', evidence = JStr ''Error processing rule'',
            reasoning = JStr (''Failed to analyze: '' @ m), confidence = 0\<rparr>
       \<and> (\<forall>rs. i < length rs \<and> rs ! i = JStr r \<and> js_trim r \<noteq> [] \<longrightarrow>
            snd (check_rules ask pdfText 0 rs ! i) =
              Inr \<lparr>rule = JStr r, status = ''fail'', evidence = JStr ''Error processing rule'',
                   reasoning = JStr (''Failed to analyze: '' @ m), confidence = 0\<rparr>
          \<and> (\<forall>j<length rs. j \<noteq> i \<longrightarrow>
                 check_rules ask pdfText 0 rs ! j = check_rule (ask j) pdfText (rs ! j)))"
proof -
  let ?E = "\<lparr>rule = JStr r, status = ''fail'', evidence = JStr ''Error processing rule'',
            reasoning = JStr (''Failed to analyze: '' @ m), confidence = 0\<rparr>"
  from assms have one: "snd (checkRuleWithLLM (ask i) pdfText r) = ?E"
    by (auto simp: checkRuleWithLLM_def try_check_def)
  have two: "snd (check_rules ask pdfText 0 rs ! i) = Inr ?E"
    if "i < length rs" "rs ! i = JStr r" "js_trim r \<noteq> []" for rs
  proof -
    from that(3) have "r \<noteq> []" by (auto simp: js_trim_def)
    with that one show ?thesis
      by (simp add: check_rules_nth check_rule_def case_prod_beta)
  qed
  have others: "check_rules ask pdfText 0 rs ! j = check_rule (ask j) pdfText (rs ! j)"
    if "j < length rs" for rs j
    using that by (simp add: check_rules_nth)
  from one two others show ?thesis by blast
qed

theorem llm_failure_contained_witness:
  "(flaky_llm 0 (build_prompt ''Published 2024'' ''Document mentions a date.'')
      = CallThrows ''Connection error.'' \<or>
    flaky_llm 0 (build_prompt ''Published 2024'' ''Document mentions a date.'')
      = ParseThrows ''Connection error.'')
   \<and> snd (checkRuleWithLLM (flaky_llm 0) ''Published 2024'' ''Document mentions a date.'') =
       \<lparr>rule = JStr ''Document mentions a date.'', status = ''fail'',
        evidence = JStr ''Error processing rule'',
        reasoning = JStr ''Failed to analyze: Connection error.'', confidence = 0\<rparr>
   \<and> snd (check_rules flaky_llm ''Published 2024'' 0 two_rules ! 1) =
       Inr \<lparr>rule = JStr ''Document has a summary.'', status = ''pass'',
            evidence = JStr ''Summary: ...'', reasoning = JStr ''It has one.'',
            confidence = 92\<rparr>"
proof -
  have h: "flaky_llm 0 (build_prompt ''Published 2024'' ''Document mentions a date.'')
             = CallThrows ''Connection error.'' \<or>
           flaky_llm 0 (build_prompt ''Published 2024'' ''Document mentions a date.'')
             = ParseThrows ''Connection error.''"
    by (simp add: flaky_llm_def)
  have two: "snd (check_rule (flaky_llm 1) ''Published 2024'' (JStr ''Document has a summary.'')) =
       Inr \<lparr>rule = JStr ''Document has a summary.'', status = ''pass'',
            evidence = JStr ''Summary: ...'', reasoning = JStr ''It has one.'',
            confidence = 92\<rparr>"
    by (simp add: flaky_llm_def eval_rule eval_check eval_parseInt eval_number)
  from llm_failure_contained
         [of flaky_llm 0 "''Published 2024''" "''Document mentions a date.''" "''Connection error.''"]
       h two
  show ?thesis
    by (simp add: two_rules_def)
qed

text \<open>
  C4, as the code has it. The handler never looks at the type of the upload: the response
  is the same whatever \<open>mimetype\<close> the file has. With a rules array that is not empty,
  the file is read and the text extraction attempted first of all; when the extraction
  throws, as it does on a file that is no PDF, the file is deleted and the response is
  500 with the message of the error, and nothing is asked of the completion service.
\<close>

theorem upload_type_not_checked:
  assumes "req_file req = Some f" and "body_rules req = Value (JArr rs)" and "rs \<noteq> []"
      and "files st (path f) = Some bytes"
  shows "handler en (req\<lparr>req_file := Some (f\<lparr>mimetype := t\<rparr>)\<rparr>) st = handler en req st
       \<and> (\<exists>es. events (snd (handler en req st)) =
                  events st @ [ReadFile (path f), ExtractText] @ es)
       \<and> (\<forall>e. pdfParse en bytes = Inl e \<longrightarrow>
            handler en req st =
              (Failure 500 ''Failed to process PDF'' (Some (message e)),
               st\<lparr>files := (files st)(path f := None),
                  events := events st @
                    [ReadFile (path f), ExtractText, Unlink (path f), Send 500]\<rparr>))"
proof (intro conjI allI impI)
  have same_path: "path (f\<lparr>mimetype := t\<rparr>) = path f" by simp
  have proc: "process en (f\<lparr>mimetype := t\<rparr>) v st = process en f v st" for v
    unfolding process_def same_path ..
  have "try_handle en (req\<lparr>req_file := Some (f\<lparr>mimetype := t\<rparr>)\<rparr>) st = try_handle en req st"
    using assms(1) by (simp add: try_handle_def proc split: rules_field.split)
  with assms(1)
  show "handler en (req\<lparr>req_file := Some (f\<lparr>mimetype := t\<rparr>)\<rparr>) st = handler en req st"
    by (simp add: handler_def split: prod.split sum.split)
next
  show "\<exists>es. events (snd (handler en req st)) = events st @ [ReadFile (path f), ExtractText] @ es"
  proof (cases "pdfParse en bytes")
    case (Inl e)
    from handler_extraction_fails [OF assms Inl] show ?thesis by simp
  next
    case (Inr pdfText)
    show ?thesis
    proof (cases "js_trim pdfText = []")
      case True
      from handler_text_blank [OF assms Inr True] show ?thesis by simp
    next
      case False
      from handler_checks [OF assms Inr False] show ?thesis
        by (auto simp: Let_def split: sum.splits)
    qed
  qed
next
  fix e assume "pdfParse en bytes = Inl e"
  from handler_extraction_fails [OF assms this]
  show "handler en req st =
          (Failure 500 ''Failed to process PDF'' (Some (message e)),
           st\<lparr>files := (files st)(path f := None),
              events := events st @ [ReadFile (path f), ExtractText, Unlink (path f), Send 500]\<rparr>)" .
qed

theorem upload_type_not_checked_witness:
  "handler sample_env text_request text_state =
     (Failure 500 ''Failed to process PDF'' (Some ''Invalid PDF structure''),
      \<lparr>files = Map.empty,
       events = [ReadFile ''uploads/9c1b'', ExtractText, Unlink ''uploads/9c1b'', Send 500]\<rparr>)"
  using upload_type_not_checked [OF text_run(1-4), of sample_env] text_run(5)
  by (simp add: text_state_def text_upload_def)

theorem non_pdf_upload_counterexample:
  "mimetype text_upload = ''text/plain'' \<and>
   status_code (fst (handler sample_env text_request text_state)) = 500 \<and>
   ExtractText \<in> set (events (snd (handler sample_env text_request text_state)))"
  using handler_extraction_fails [OF text_run] by (simp add: text_upload_def)

text \<open>
  C5. For an upload that is on disk, a rules array that is not empty and has strings (or
  falsy values) only, and an extracted text that is not blank, the response is a results
  array with one result for each rule, at the position of the rule: the result at \<open>i\<close>
  is what the callback gives for the rule at \<open>i\<close> with the reply for \<open>i\<close>, and its
  \<open>rule\<close> field is that rule (\<open>Empty rule\<close> for a falsy one). \<open>Promise.all\<close> returns the
  values by position, so the order in which the calls complete has no part in it.
\<close>

theorem results_match_rules:
  assumes "req_file req = Some f" and "body_rules req = Value (JArr rs)" and "rs \<noteq> []"
      and "files st (path f) = Some bytes" and "pdfParse en bytes = Inr pdfText"
      and "js_trim pdfText \<noteq> []"
      and valid: "\<forall>x\<in>set rs. (\<exists>s. x = JStr s) \<or> \<not> truthy x"
  shows "\<exists>results. fst (handler en req st) = Results results \<and> length results = length rs \<and>
           (\<forall>i<length rs.
              snd (check_rule (llm en i) pdfText (rs ! i)) = Inr (results ! i) \<and>
              rule (results ! i) = js_or (rs ! i) (JStr ''Empty rule''))"
proof -
  let ?outs = "check_rules (llm en) pdfText 0 rs"
  have "\<forall>y\<in>set (map snd ?outs). \<exists>x. y = Inr x"
  proof
    fix y assume "y \<in> set (map snd ?outs)"
    then obtain out where "out \<in> set ?outs" "y = snd out" by auto
    with check_rules_set [of out "llm en" pdfText 0 rs] obtain j where "j < length rs"
      "y = snd (check_rule (llm en j) pdfText (rs ! j))" by auto
    with valid check_rule_valid [of "rs ! j"] show "\<exists>x. y = Inr x" by (metis nth_mem)
  qed
  then have "\<exists>results. map snd ?outs = map Inr results"
    by (simp only: ex_map_conv)
  then obtain results where results: "map snd ?outs = map Inr results" ..
  then have len: "length results = length rs"
    by (metis check_rules_length length_map)
  have "snd (check_rule (llm en i) pdfText (rs ! i)) = Inr (results ! i) \<and>
        rule (results ! i) = js_or (rs ! i) (JStr ''Empty rule'')" if "i < length rs" for i
  proof -
    from that len have "map snd ?outs ! i = Inr (results ! i)" by (simp add: results)
    with that have eq: "snd (check_rule (llm en i) pdfText (rs ! i)) = Inr (results ! i)"
      by (simp add: check_rules_nth check_rules_length)
    from valid that check_rule_valid [of "rs ! i" "llm en i" pdfText] eq show ?thesis by auto
  qed
  moreover have "fst (handler en req st) = Results results"
    using handler_checks [OF assms(1-6)] results by (simp add: Let_def promise_all_fulfilled)
  ultimately show ?thesis using len by blast
qed

theorem results_match_rules_witness:
  "length (results_of (fst (handler sample_env (sample_request two_rules) sample_state))) = 2 \<and>
   rule (results_of (fst (handler sample_env (sample_request two_rules) sample_state)) ! 1) =
     JStr ''Document has a summary.''"
proof -
  have "js_trim ''Published 2024'' \<noteq> []" by (simp add: js_trim_def is_ws_def)
  moreover have "\<forall>x\<in>set two_rules. (\<exists>s. x = JStr s) \<or> \<not> truthy x"
    by (simp add: two_rules_def)
  moreover have "two_rules \<noteq> []" by (simp add: two_rules_def)
  ultimately obtain results
    where "fst (handler sample_env (sample_request two_rules) sample_state) = Results results"
      and "length results = length two_rules"
      and "\<forall>i<length two_rules. rule (results ! i) = js_or (two_rules ! i) (JStr ''Empty rule'')"
    using results_match_rules
      [of "sample_request two_rules" sample_upload two_rules sample_state "''%PDF-1.4 ...''"
          sample_env "''Published 2024''"]
    by (auto simp: sample_request_def sample_upload_def sample_state_def sample_env_def
          sample_pdfParse_def)
  then show ?thesis by (simp add: two_rules_def js_or_def)
qed

text \<open>
  C6. A rule string that is empty, or has white space only, is answered with the fixed
  result: status \<open>fail\<close>, reasoning \<open>Rule is empty or invalid\<close>, confidence 0. The callback
  does nothing to the outside for it: no request goes to the service.
\<close>

theorem blank_rule_short_circuit:
  assumes "\<forall>c\<in>set s. is_ws c"
  shows "check_rule ask pdfText (JStr s) =
           ([], Inr \<lparr>rule = (if s = [] then JStr ''Empty rule'' else JStr s),
                     status = ''fail'',
                     evidence = JStr ''No rule provided'',
                     reasoning = JStr ''Rule is empty or invalid'',
                     confidence = 0\<rparr>)"
  using js_trim_blank [OF assms]
  by (simp add: check_rule_def empty_rule_result_def js_or_def)

theorem blank_rule_short_circuit_witness:
  "list_all is_ws [CHR 0x20, CHR 0x09, CHR 0xA0] \<and>
   check_rule (flaky_llm 1) ''Published 2024'' (JStr [CHR 0x20, CHR 0x09, CHR 0xA0]) =
           ([], Inr \<lparr>rule = JStr [CHR 0x20, CHR 0x09, CHR 0xA0],
                     status = ''fail'',
                     evidence = JStr ''No rule provided'',
                     reasoning = JStr ''Rule is empty or invalid'',
                     confidence = 0\<rparr>)"
  using blank_rule_short_circuit [of "[CHR 0x20, CHR 0x09, CHR 0xA0]" "flaky_llm 1" "''Published 2024''"]
  by (simp add: is_ws_def)

text \<open>
  C7, as the code has it. For the rules \<open>Document mentions a date.\<close>, the empty string and
  \<open>Document has a summary.\<close>, with a text that is not blank, the response has three
  results: what the single-rule checker gives for the first and the third rule, and
  between them the fixed result, whose \<open>rule\<close> field is \<open>Empty rule\<close> (line 86 replaces a
  falsy rule) and whose \<open>evidence\<close> is \<open>No rule provided\<close>.
\<close>

theorem empty_rule_among_three:
  assumes "req_file req = Some f" and "body_rules req = Value (JArr date_rules)"
      and "files st (path f) = Some bytes" and "pdfParse en bytes = Inr pdfText"
      and "js_trim pdfText \<noteq> []"
  shows "fst (handler en req st) =
     Results [snd (checkRuleWithLLM (llm en 0) pdfText ''Document mentions a date.''),
              \<lparr>rule = JStr ''Empty rule'', status = ''fail'',
               evidence = JStr ''No rule provided'',
               reasoning = JStr ''Rule is empty or invalid'', confidence = 0\<rparr>,
              snd (checkRuleWithLLM (llm en 2) pdfText ''Document has a summary.'')]"
proof -
  have "date_rules \<noteq> []" by (simp add: date_rules_def)
  from handler_checks [OF assms(1,2) this assms(3,4,5)] show ?thesis
    by (simp only: Let_def date_rules_outcomes promise_all_fulfilled sum.case fst_conv)
qed

theorem empty_rule_among_three_witness:
  "results_of (fst (handler sample_env (sample_request date_rules) sample_state)) ! 1 =
     \<lparr>rule = JStr ''Empty rule'', status = ''fail'', evidence = JStr ''No rule provided'',
      reasoning = JStr ''Rule is empty or invalid'', confidence = 0\<rparr>"
  using empty_rule_among_three [OF sample_run] by simp

theorem empty_rule_field_counterexample:
  "length (results_of (fst (handler sample_env (sample_request date_rules) sample_state))) = 3 \<and>
   rule (results_of (fst (handler sample_env (sample_request date_rules) sample_state)) ! 1) =
     JStr ''Empty rule'' \<and>
   rule (results_of (fst (handler sample_env (sample_request date_rules) sample_state)) ! 1) \<noteq>
     JStr []"
proof -
  have "date_rules \<noteq> []" by (simp add: date_rules_def)
  from handler_checks [OF sample_run(1,2) this sample_run(3,4,5)]
  have "results_of (fst (handler sample_env (sample_request date_rules) sample_state)) =
     [snd (checkRuleWithLLM (llm sample_env 0) ''Published 2024'' ''Document mentions a date.''),
      \<lparr>rule = JStr ''Empty rule'', status = ''fail'', evidence = JStr ''No rule provided'',
       reasoning = JStr ''Rule is empty or invalid'', confidence = 0\<rparr>,
      snd (checkRuleWithLLM (llm sample_env 2) ''Published 2024'' ''Document has a summary.'')]"
    by (simp only: Let_def date_rules_outcomes promise_all_fulfilled sum.case fst_conv
          results_of.simps)
  then show ?thesis by simp
qed

text \<open>
  C8. When the upload is on disk as the handler starts, then on every path (rules that do
  not parse, rules that are no array or empty, an extraction that throws, a blank text, a
  rejected promise, success) the handler does exactly one \<open>unlink\<close> of the file, the
  response is the last thing it does and the only one sent, and the file is gone
  afterwards while every other file is as it was.
\<close>

theorem upload_deleted_once:
  assumes "req_file req = Some f" and "files st (path f) \<noteq> None"
  shows "\<exists>es. events (snd (handler en req st)) =
                events st @ es @ [Send (status_code (fst (handler en req st)))]
            \<and> count_list es (Unlink (path f)) = 1
            \<and> (\<forall>c. Send c \<notin> set es)
            \<and> files (snd (handler en req st)) = (files st)(path f := None)"
proof (cases "\<exists>rs. body_rules req = Value (JArr rs) \<and> rs \<noteq> []")
  case False
  then have "body_rules req = Unparsable \<or>
             (\<exists>v. body_rules req = Value v \<and> (\<forall>x xs. v \<noteq> JArr (x # xs)))"
    by (cases "body_rules req") auto
  from handler_rules_refused [OF assms this, of en] obtain msg where
    "handler en req st =
       (Failure 400 msg None,
        st\<lparr>files := (files st)(path f := None), events := events st @ [Unlink (path f), Send 400]\<rparr>)"
    by blast
  then show ?thesis by (intro exI [of _ "[Unlink (path f)]"]) simp
next
  case True
  then obtain rs where rs: "body_rules req = Value (JArr rs)" "rs \<noteq> []" by blast
  from assms(2) obtain bytes where bytes: "files st (path f) = Some bytes" by blast
  let ?pre = "[ReadFile (path f), ExtractText, Unlink (path f)]"
  show ?thesis
  proof (cases "pdfParse en bytes")
    case (Inl e)
    from handler_extraction_fails [OF assms(1) rs bytes Inl]
    show ?thesis by (intro exI [of _ ?pre]) simp
  next
    case (Inr pdfText)
    show ?thesis
    proof (cases "js_trim pdfText = []")
      case True
      from handler_text_blank [OF assms(1) rs bytes Inr True]
      show ?thesis by (intro exI [of _ ?pre]) simp
    next
      case False
      let ?calls = "concat (map fst (check_rules (llm en) pdfText 0 rs))"
      have calls: "Unlink (path f) \<notin> set ?calls" "\<And>c. Send c \<notin> set ?calls"
        using check_rules_events [of _ "llm en" pdfText 0 rs] by blast+
      from handler_checks [OF assms(1) rs bytes Inr False] calls
      show ?thesis
        by (intro exI [of _ "?pre @ ?calls"]) (simp add: Let_def split: sum.splits)
    qed
  qed
qed

theorem upload_deleted_once_witness:
  "events (snd (handler sample_env (sample_request two_rules) sample_state)) =
     [ReadFile ''uploads/3f2a'', ExtractText, Unlink ''uploads/3f2a'',
      CallLlm (build_prompt ''Published 2024'' ''Document mentions a date.''),
      CallLlm (build_prompt ''Published 2024'' ''Document has a summary.''),
      Send 200]
   \<and> files (snd (handler sample_env (sample_request two_rules) sample_state)) ''uploads/3f2a'' = None"
proof -
  have run: "events (snd (handler sample_env (sample_request two_rules) sample_state)) =
     [ReadFile ''uploads/3f2a'', ExtractText, Unlink ''uploads/3f2a'',
      CallLlm (build_prompt ''Published 2024'' ''Document mentions a date.''),
      CallLlm (build_prompt ''Published 2024'' ''Document has a summary.''),
      Send 200]"
    using handler_checks [OF sample_run(1,2) _ sample_run(3,4,5), of two_rules]
    by (simp add: two_rules_def Let_def check_rule_def checkRuleWithLLM_def js_trim_def is_ws_def
          sample_state_def sample_upload_def sample_env_def)
  have "files sample_state (path sample_upload) \<noteq> None" by (simp add: sample_run)
  from upload_deleted_once [OF sample_run(1) [of two_rules] this, where en = sample_env]
  have "files (snd (handler sample_env (sample_request two_rules) sample_state)) =
          (files sample_state)(path sample_upload := None)" by blast
  with run show ?thesis by (simp add: sample_upload_def)
qed


text \<open>
  C10. When the rules array has an element that is truthy and no string (the number 1,
  say), \<open>rule.trim()\<close> throws in the callback of that element, \<open>Promise.all\<close> rejects
  and the handler answers 500 with \<open>Failed to process PDF\<close> and the message of the
  TypeError: no result of any rule is returned.
\<close>

theorem non_string_rule_rejects_request:
  assumes "req_file req = Some f" and "body_rules req = Value (JArr rs)"
      and "files st (path f) = Some bytes" and "pdfParse en bytes = Inr pdfText"
      and "js_trim pdfText \<noteq> []"
      and "x \<in> set rs" and "truthy x" and "\<forall>s. x \<noteq> JStr s"
  shows "fst (handler en req st) =
           Failure 500 ''Failed to process PDF'' (Some ''rule.trim is not a function'')"
proof -
  let ?outs = "check_rules (llm en) pdfText 0 rs"
  from assms(6) have ne: "rs \<noteq> []" by auto
  from assms(6) obtain j where j: "j < length rs" "rs ! j = x" by (auto simp: in_set_conv_nth)
  then have "snd (?outs ! j) = Inl (Error ''rule.trim is not a function'')"
    using check_rule_non_string [OF assms(7,8)] by (simp add: check_rules_nth)
  with j have "Inl (Error ''rule.trim is not a function'') \<in> set (map snd ?outs)"
    by (metis check_rules_length length_map nth_map nth_mem)
  from promise_all_rejected [OF this] obtain e
    where e: "promise_all (map snd ?outs) = Inl e" "Inl e \<in> set (map snd ?outs)" by blast
  from e(2) obtain out where "out \<in> set ?outs" "snd out = Inl e" by auto
  with check_rules_set [of out "llm en" pdfText 0 rs] check_rule_error
  have "e = Error ''rule.trim is not a function''"
    by metis
  with e(1) handler_checks [OF assms(1,2) ne assms(3,4,5)] show ?thesis by (simp add: Let_def)
qed

theorem non_string_rule_rejects_request_witness:
  "fst (handler sample_env (sample_request [JStr ''Document mentions a date.'', JNum (num_of_int 1)])
          sample_state) =
     Failure 500 ''Failed to process PDF'' (Some ''rule.trim is not a function'')"
proof -
  have "js_trim ''Published 2024'' \<noteq> []" by (simp add: js_trim_def is_ws_def)
  moreover have "truthy (JNum (num_of_int 1))" by (simp add: num_of_int_def)
  ultimately show ?thesis
    using non_string_rule_rejects_request
      [of "sample_request [JStr ''Document mentions a date.'', JNum (num_of_int 1)]"
          sample_upload "[JStr ''Document mentions a date.'', JNum (num_of_int 1)]"
          sample_state "''%PDF-1.4 ...''" sample_env "''Published 2024''" "JNum (num_of_int 1)"]
    by (simp add: sample_request_def sample_upload_def sample_state_def sample_env_def
          sample_pdfParse_def)
qed

end
